theory Spec2Isabelle
  imports Complex_Main "HOL-Library.Word"
begin

unbundle bit_operations_syntax

section \<open>The machine model\<close>

text \<open>
  The allocator of \<^verbatim>\<open>mm.c\<close> stores payload pointers in four-byte heap words
  (\<^verbatim>\<open>PUT(bp, (int) free_listp)\<close>) and reads them back as pointers
  (\<^verbatim>\<open>(char *) NEXT_FREE(bp)\<close>), so it is a program for an ILP32 machine: pointers,
  \<^verbatim>\<open>unsigned int\<close> and \<^verbatim>\<open>size_t\<close> are all 32-bit words, and their arithmetic wraps.
  Memory is a flat, byte-addressed, little-endian store; \<^verbatim>\<open>GET\<close> and \<^verbatim>\<open>PUT\<close>
  read and write four consecutive bytes. The store is total: an access to an address that
  the running process would not have mapped is not told apart from any other access.
  The diagnostics that the checker prints are not modelled, only its return values.
\<close>

type_synonym addr = "32 word"
type_synonym memory = "32 word \<Rightarrow> 8 word"

definition load32 :: "memory \<Rightarrow> addr \<Rightarrow> 32 word" where
  "load32 m p =
     ucast (m p) OR push_bit 8 (ucast (m (p + 1))) OR
     push_bit 16 (ucast (m (p + 2))) OR push_bit 24 (ucast (m (p + 3)))"

definition store32 :: "memory \<Rightarrow> addr \<Rightarrow> 32 word \<Rightarrow> memory" where
  "store32 m p v =
     (\<lambda>a. if a = p then ucast v
          else if a = p + 1 then ucast (drop_bit 8 v)
          else if a = p + 2 then ucast (drop_bit 16 v)
          else if a = p + 3 then ucast (drop_bit 24 v)
          else m a)"

text \<open>
  The C library's \<^verbatim>\<open>memcpy(dst, src, n)\<close>: the \<open>n\<close> bytes at \<open>src\<close> appear at
  \<open>dst\<close>. (C leaves the result open when the two areas overlap; the model then reads the
  bytes as they were before the call.)
\<close>

definition memcpy_mem :: "memory \<Rightarrow> addr \<Rightarrow> addr \<Rightarrow> 32 word \<Rightarrow> memory" where
  "memcpy_mem m dst src n = (\<lambda>a. if a - dst < n then m (src + (a - dst)) else m a)"

text \<open>
  The globals of \<^verbatim>\<open>mm.c\<close> (\<^verbatim>\<open>heap_listp\<close>, \<^verbatim>\<open>free_listp\<close>, \<^verbatim>\<open>epilogue\<close>), the
  memory, and the two variables of the page-grant primitive: the current break and the
  end of the arena.
\<close>

record state =
  mem :: memory
  mem_brk :: addr
  mem_max_addr :: addr
  heap_listp :: addr
  free_listp :: addr
  epilogue :: addr

text \<open>
  The state of a process that has not called \<^verbatim>\<open>mm_init\<close> yet: the three globals hold
  their static initial value, the null pointer; the arena reaches from \<open>base\<close> to \<open>limit\<close>
  and holds the bytes \<open>m\<close>.
\<close>

definition fresh :: "memory \<Rightarrow> addr \<Rightarrow> addr \<Rightarrow> state" where
  "fresh m base limit =
     \<lparr>mem = m, mem_brk = base, mem_max_addr = limit,
      heap_listp = 0, free_listp = 0, epilogue = 0\<rparr>"

text \<open>
  Modelled from the spec: \<^verbatim>\<open>mem_sbrk\<close> of \<^verbatim>\<open>memlib.c\<close>, which is not among the
  sources. The spec's page-grant primitive \<^verbatim>\<open>heap_extend(n)\<close> returns a pointer to \<open>n\<close>
  bytes appended at the heap tail, equal to the old tail address, or signals exhaustion
  when the capacity does not suffice; \<^verbatim>\<open>mm.c\<close> tests for the failure value
  \<^verbatim>\<open>(void *)-1\<close>.
\<close>

definition mem_sbrk :: "state \<Rightarrow> 32 word \<Rightarrow> state \<times> addr" where
  "mem_sbrk s incr =
     (if unat (mem_max_addr s) < unat (mem_brk s) + unat incr then (s, - 1)
      else (s\<lparr>mem_brk := mem_brk s + incr\<rparr>, mem_brk s))"

section \<open>Constants and macros\<close>

definition WSIZE :: "32 word" where "WSIZE = 4"
definition DSIZE :: "32 word" where "DSIZE = 8"
definition CHUNKSIZE :: "32 word" where "CHUNKSIZE = push_bit 12 1"
definition MINIMUM :: "32 word" where "MINIMUM = 16"

text \<open>\<^verbatim>\<open>SIZE_T_SIZE\<close> is \<^verbatim>\<open>ALIGN(sizeof(size_t))\<close>, with a four-byte \<^verbatim>\<open>size_t\<close>.\<close>

definition ALIGN :: "32 word \<Rightarrow> 32 word" where
  "ALIGN sz = (sz + (8 - 1)) AND NOT 7"

definition SIZE_T_SIZE :: "32 word" where
  "SIZE_T_SIZE = ALIGN 4"

definition PACK :: "32 word \<Rightarrow> 32 word \<Rightarrow> 32 word" where
  "PACK sz alloc = sz OR alloc"

definition GET :: "state \<Rightarrow> addr \<Rightarrow> 32 word" where
  "GET s p = load32 (mem s) p"

definition PUT :: "state \<Rightarrow> addr \<Rightarrow> 32 word \<Rightarrow> state" where
  "PUT s p val = s\<lparr>mem := store32 (mem s) p val\<rparr>"

definition GET_SIZE :: "state \<Rightarrow> addr \<Rightarrow> 32 word" where
  "GET_SIZE s p = GET s p AND NOT 7"

definition GET_ALLOC :: "state \<Rightarrow> addr \<Rightarrow> 32 word" where
  "GET_ALLOC s p = GET s p AND 1"

definition GET_ALIGN :: "state \<Rightarrow> addr \<Rightarrow> 32 word" where
  "GET_ALIGN s p = GET s p AND 7"

definition HDRP :: "addr \<Rightarrow> addr" where
  "HDRP bp = bp - WSIZE"

definition FTRP :: "state \<Rightarrow> addr \<Rightarrow> addr" where
  "FTRP s bp = bp + GET_SIZE s (HDRP bp) - DSIZE"

definition NEXT_BLKP :: "state \<Rightarrow> addr \<Rightarrow> addr" where
  "NEXT_BLKP s bp = bp + GET_SIZE s (bp - WSIZE)"

definition PREV_BLKP :: "state \<Rightarrow> addr \<Rightarrow> addr" where
  "PREV_BLKP s bp = bp - GET_SIZE s (bp - DSIZE)"

definition NEXT_FREE :: "state \<Rightarrow> addr \<Rightarrow> 32 word" where
  "NEXT_FREE s bp = GET s (bp + WSIZE)"

definition PREV_FREE :: "state \<Rightarrow> addr \<Rightarrow> 32 word" where
  "PREV_FREE s bp = GET s bp"

section \<open>The free list\<close>

definition add_freeblock :: "state \<Rightarrow> addr \<Rightarrow> state" where
  "add_freeblock s bp =
     (if free_listp s = 0 then
        (let s1 = s\<lparr>free_listp := bp\<rparr>;
             s2 = PUT s1 bp 0
         in PUT s2 (bp + WSIZE) 0)
      else
        (let s1 = PUT s (free_listp s) bp;
             s2 = PUT s1 bp 0;
             s3 = PUT s2 (bp + WSIZE) (free_listp s2)
         in s3\<lparr>free_listp := bp\<rparr>))"

definition remove_freeblock :: "state \<Rightarrow> addr \<Rightarrow> state" where
  "remove_freeblock s bp =
     (if PREV_FREE s bp = 0 \<and> NEXT_FREE s bp = 0 then s\<lparr>free_listp := 0\<rparr>
      else if PREV_FREE s bp = 0 \<and> NEXT_FREE s bp \<noteq> 0 then
        (let s1 = s\<lparr>free_listp := NEXT_FREE s bp\<rparr>
         in PUT s1 (NEXT_FREE s1 bp) 0)
      else if PREV_FREE s bp \<noteq> 0 \<and> NEXT_FREE s bp = 0 then
        PUT s (PREV_FREE s bp + WSIZE) 0
      else
        (let s1 = PUT s (PREV_FREE s bp + WSIZE) (NEXT_FREE s bp)
         in PUT s1 (NEXT_FREE s1 bp) (PREV_FREE s1 bp)))"

section \<open>Coalescing, growth, placement\<close>

definition coalesce :: "state \<Rightarrow> addr \<Rightarrow> state \<times> addr" where
  "coalesce s bp =
     (let prev_alloc = GET_ALLOC s (HDRP (PREV_BLKP s bp));
          next_alloc = GET_ALLOC s (HDRP (NEXT_BLKP s bp));
          sz = GET_SIZE s (HDRP bp)
      in
        if prev_alloc \<noteq> 0 \<and> next_alloc \<noteq> 0 then (add_freeblock s bp, bp)
        else if prev_alloc \<noteq> 0 \<and> next_alloc = 0 then
          (let sz = sz + GET_SIZE s (HDRP (NEXT_BLKP s bp));
               s1 = remove_freeblock s (NEXT_BLKP s bp);
               s2 = PUT s1 (HDRP bp) (PACK sz 0);
               s3 = PUT s2 (FTRP s2 bp) (PACK sz 0)
           in (add_freeblock s3 bp, bp))
        else if prev_alloc = 0 \<and> next_alloc \<noteq> 0 then
          (let sz = sz + GET_SIZE s (HDRP (PREV_BLKP s bp));
               s1 = remove_freeblock s (PREV_BLKP s bp);
               s2 = PUT s1 (HDRP (PREV_BLKP s1 bp)) (PACK sz 0);
               s3 = PUT s2 (FTRP s2 bp) (PACK sz 0);
               bp' = PREV_BLKP s3 bp
           in (add_freeblock s3 bp', bp'))
        else
          (let sz = sz + (GET_SIZE s (HDRP (PREV_BLKP s bp))
                           + GET_SIZE s (FTRP s (NEXT_BLKP s bp)));
               s1 = remove_freeblock s (PREV_BLKP s bp);
               s2 = remove_freeblock s1 (NEXT_BLKP s1 bp);
               s3 = PUT s2 (HDRP (PREV_BLKP s2 bp)) (PACK sz 0);
               s4 = PUT s3 (FTRP s3 (NEXT_BLKP s3 bp)) (PACK sz 0);
               bp' = PREV_BLKP s4 bp
           in (add_freeblock s4 bp', bp')))"

definition extend_heap :: "state \<Rightarrow> 32 word \<Rightarrow> state \<times> addr" where
  "extend_heap s words =
     (let sz = (if words mod 2 \<noteq> 0 then (words + 1) * WSIZE else words * WSIZE);
          (s1, bp) = mem_sbrk s sz
      in
        if bp = - 1 then (s1, 0)
        else
          (let s2 = PUT s1 (HDRP bp) (PACK sz 0);
               s3 = PUT s2 (FTRP s2 bp) (PACK sz 0);
               s4 = PUT s3 (HDRP (NEXT_BLKP s3 bp)) (PACK 0 1)
           in coalesce s4 bp))"

definition place :: "state \<Rightarrow> addr \<Rightarrow> 32 word \<Rightarrow> state" where
  "place s bp asize =
     (let csize = GET_SIZE s (HDRP bp)
      in
        if MINIMUM \<le> csize - asize then
          (let s1 = remove_freeblock s bp;
               s2 = PUT s1 (HDRP bp) (PACK asize 1);
               s3 = PUT s2 (FTRP s2 bp) (PACK asize 1);
               bp' = NEXT_BLKP s3 bp;
               s4 = PUT s3 (HDRP bp') (PACK (csize - asize) 0);
               s5 = PUT s4 (FTRP s4 bp') (PACK (csize - asize) 0)
           in add_freeblock s5 bp')
        else
          (let s1 = PUT s (HDRP bp) (PACK csize 1);
               s2 = PUT s1 (FTRP s1 bp) (PACK csize 1)
           in remove_freeblock s2 bp))"

section \<open>The client interface\<close>

definition mm_init :: "state \<Rightarrow> state \<times> int" where
  "mm_init s =
     (let (s1, p) = mem_sbrk s (4 * WSIZE);
          s2 = s1\<lparr>heap_listp := p\<rparr>
      in
        if p = - 1 then (s2, - 1)
        else
          (let s3 = PUT s2 (heap_listp s2) 0;
               s4 = PUT s3 (heap_listp s3 + 1 * WSIZE) (PACK DSIZE 1);
               s5 = PUT s4 (heap_listp s4 + 2 * WSIZE) (PACK DSIZE 1);
               s6 = PUT s5 (heap_listp s5 + 3 * WSIZE) (PACK 0 1);
               s7 = s6\<lparr>epilogue := heap_listp s6 + 3 * WSIZE\<rparr>;
               s8 = s7\<lparr>heap_listp := heap_listp s7 + 2 * WSIZE\<rparr>;
               s9 = s8\<lparr>free_listp := 0\<rparr>;
               (s10, bp) = extend_heap s9 (CHUNKSIZE div WSIZE)
           in if bp = 0 then (s10, - 1) else (s10, 0)))"

text \<open>
  The first-fit scan follows the \<^verbatim>\<open>next_free\<close> links until it meets a large enough
  block or the null pointer; on a cyclic list it does not return, which is the value
  \<open>None\<close>.
\<close>

partial_function (option) find_fit_from :: "state \<Rightarrow> 32 word \<Rightarrow> addr \<Rightarrow> addr option" where
  "find_fit_from s asize bp =
     (if bp = 0 then Some 0
      else if asize \<le> GET_SIZE s (HDRP bp) then Some bp
      else find_fit_from s asize (NEXT_FREE s bp))"

declare find_fit_from.simps [code]

definition find_fit :: "state \<Rightarrow> 32 word \<Rightarrow> addr option" where
  "find_fit s asize = find_fit_from s asize (free_listp s)"

text \<open>The adjusted block size that \<^verbatim>\<open>mm_malloc\<close> computes from the request, in \<^verbatim>\<open>size_t\<close>.\<close>

definition adjusted_size :: "32 word \<Rightarrow> 32 word" where
  "adjusted_size sz =
     (if sz \<le> DSIZE then MINIMUM
      else DSIZE * ((sz + DSIZE + (DSIZE - 1)) div DSIZE))"

definition mm_malloc :: "state \<Rightarrow> 32 word \<Rightarrow> (state \<times> addr) option" where
  "mm_malloc s sz =
     (if sz = 0 then Some (s, 0)
      else
        (let asize = adjusted_size sz
         in case find_fit s asize of
              None \<Rightarrow> None
            | Some bp \<Rightarrow>
                if bp \<noteq> 0 then Some (place s bp asize, bp)
                else
                  (let extendsize = max asize CHUNKSIZE;
                       (s1, bp) = extend_heap s (extendsize div WSIZE)
                   in if bp = 0 then Some (s1, 0)
                      else Some (place s1 bp asize, bp))))"

definition mm_free :: "state \<Rightarrow> addr \<Rightarrow> state" where
  "mm_free s ptr =
     (if ptr = 0 \<or> heap_listp s = 0 then s
      else
        (let sz = GET_SIZE s (HDRP ptr);
             s1 = PUT s (HDRP ptr) (PACK sz 0);
             s2 = PUT s1 (FTRP s1 ptr) (PACK sz 0)
         in fst (coalesce s2 ptr)))"

definition mm_realloc :: "state \<Rightarrow> addr \<Rightarrow> 32 word \<Rightarrow> (state \<times> addr) option" where
  "mm_realloc s ptr sz =
     (case mm_malloc s sz of
        None \<Rightarrow> None
      | Some (s1, newptr) \<Rightarrow>
          if newptr = 0 then Some (s1, 0)
          else
            (let copySize = GET s1 (ptr - SIZE_T_SIZE);
                 copySize = (if sz < copySize then sz else copySize);
                 s2 = s1\<lparr>mem := memcpy_mem (mem s1) newptr ptr copySize\<rparr>
             in Some (mm_free s2 ptr, newptr)))"

section \<open>The heap checker\<close>

partial_function (option) correct_free_marked_from :: "state \<Rightarrow> addr \<Rightarrow> int option" where
  "correct_free_marked_from s bp =
     (if bp = 0 then Some 1
      else if GET_ALLOC s (HDRP bp) \<noteq> 0 then Some 0
      else correct_free_marked_from s (NEXT_FREE s bp))"

declare correct_free_marked_from.simps [code]

definition correct_free_marked :: "state \<Rightarrow> int option" where
  "correct_free_marked s = correct_free_marked_from s (free_listp s)"

definition check_coalescing :: "state \<Rightarrow> int" where
  "check_coalescing s =
     (let bp = heap_listp s
      in if GET_ALLOC s bp = 0 then
           (if NEXT_BLKP s bp \<noteq> 0 \<and> GET_ALLOC s (HDRP (NEXT_BLKP s bp)) = 0 then 0 else 1)
         else 1)"

text \<open>
  The inner loop of \<^verbatim>\<open>check_freelist\<close>: \<open>True\<close> when \<open>cmp\<close> reaches \<open>bp\<close>, \<open>False\<close>
  when the error branch is taken.
\<close>

partial_function (option) check_freelist_find :: "state \<Rightarrow> addr \<Rightarrow> addr \<Rightarrow> bool option" where
  "check_freelist_find s bp cmp =
     (if bp \<noteq> cmp then
        (if GET_SIZE s (HDRP cmp) = 0 then Some False
         else check_freelist_find s bp (NEXT_FREE s cmp))
      else Some True)"

declare check_freelist_find.simps [code]

partial_function (option) check_freelist_from :: "state \<Rightarrow> addr \<Rightarrow> int option" where
  "check_freelist_from s bp =
     (if bp \<noteq> 0 \<and> GET_SIZE s (HDRP bp) \<noteq> 0 then
        (if GET_ALLOC s (HDRP bp) = 0 then
           (case check_freelist_find s bp (free_listp s) of
              None \<Rightarrow> None
            | Some found \<Rightarrow>
                if found then check_freelist_from s (NEXT_BLKP s bp) else Some 0)
         else check_freelist_from s (NEXT_BLKP s bp))
      else Some 1)"

declare check_freelist_from.simps [code]

definition check_freelist :: "state \<Rightarrow> int option" where
  "check_freelist s = check_freelist_from s (heap_listp s)"

partial_function (option) check_overlap_from :: "state \<Rightarrow> addr \<Rightarrow> int option" where
  "check_overlap_from s bp =
     (if bp \<noteq> 0 \<and> GET_SIZE s (HDRP bp) \<noteq> 0 then
        (if GET_ALLOC s (HDRP bp) \<noteq> 0 \<and> NEXT_BLKP s bp \<le> bp + GET_SIZE s (HDRP bp) - WSIZE
         then Some 0
         else check_overlap_from s (NEXT_BLKP s bp))
      else Some 1)"

declare check_overlap_from.simps [code]

definition check_overlap :: "state \<Rightarrow> int option" where
  "check_overlap s = check_overlap_from s (heap_listp s)"

partial_function (option) check_valid_heap_from :: "state \<Rightarrow> addr \<Rightarrow> int option" where
  "check_valid_heap_from s bp =
     (if bp < epilogue s then
        (if HDRP bp < HDRP (NEXT_BLKP s (heap_listp s)) \<or> GET_ALIGN s (HDRP bp) \<noteq> 8
         then Some 0
         else check_valid_heap_from s (NEXT_BLKP s bp))
      else Some 1)"

declare check_valid_heap_from.simps [code]

definition check_valid_heap :: "state \<Rightarrow> int option" where
  "check_valid_heap s = check_valid_heap_from s (NEXT_BLKP s (heap_listp s))"

partial_function (option) check_consistency_from :: "state \<Rightarrow> addr \<Rightarrow> int option" where
  "check_consistency_from s free =
     (if free = 0 then Some 1
      else if GET_ALLOC s (HDRP free) \<noteq> 0 \<or> GET_ALLOC s (FTRP s free) \<noteq> 0 then Some 0
      else check_consistency_from s (NEXT_FREE s free))"

declare check_consistency_from.simps [code]

definition check_consistency :: "state \<Rightarrow> int option" where
  "check_consistency s = check_consistency_from s (free_listp s)"

text \<open>
  \<^verbatim>\<open>mm_check\<close> runs the six audits in order and stops at the first that returns 0; it
  returns no value when an audit does not return.
\<close>

definition mm_check :: "state \<Rightarrow> int option" where
  "mm_check s =
     (case correct_free_marked s of
        None \<Rightarrow> None
      | Some r1 \<Rightarrow>
          if r1 = 0 then Some 0
          else if check_coalescing s = 0 then Some 0
          else
            (case check_freelist s of
               None \<Rightarrow> None
             | Some r3 \<Rightarrow>
                 if r3 = 0 then Some 0
                 else
                   (case check_overlap s of
                      None \<Rightarrow> None
                    | Some r4 \<Rightarrow>
                        if r4 = 0 then Some 0
                        else
                          (case check_valid_heap s of
                             None \<Rightarrow> None
                           | Some r5 \<Rightarrow>
                               if r5 = 0 then Some 0
                               else
                                 (case check_consistency s of
                                    None \<Rightarrow> None
                                  | Some r6 \<Rightarrow> if r6 = 0 then Some 0 else Some 1)))))"

section \<open>Memory lemmas\<close>

lemma store32_apply:
  "store32 m p v a =
     (if a = p then ucast v
      else if a = p + 1 then ucast (drop_bit 8 v)
      else if a = p + 2 then ucast (drop_bit 16 v)
      else if a = p + 3 then ucast (drop_bit 24 v)
      else m a)"
  by (simp add: store32_def)

lemma word32_from_bytes:
  "ucast (ucast v :: 8 word) OR push_bit 8 (ucast (ucast (drop_bit 8 v) :: 8 word)) OR
   push_bit 16 (ucast (ucast (drop_bit 16 v) :: 8 word)) OR
   push_bit 24 (ucast (ucast (drop_bit 24 v) :: 8 word)) = (v :: 32 word)"
proof (rule bit_word_eqI)
  fix n :: nat
  assume "n < LENGTH(32)"
  then show "bit (ucast (ucast v :: 8 word) OR
      push_bit 8 (ucast (ucast (drop_bit 8 v) :: 8 word)) OR
      push_bit 16 (ucast (ucast (drop_bit 16 v) :: 8 word)) OR
      push_bit 24 (ucast (ucast (drop_bit 24 v) :: 8 word)) :: 32 word) n = bit v n"
    by (cases "n < 8"; cases "n < 16"; cases "n < 24") (auto simp add: bit_simps)
qed

lemma load32_store32_same: "load32 (store32 m p v) p = v"
  by (simp add: load32_def store32_apply word32_from_bytes)

text \<open>
  Two words do not overlap when each start is at least four bytes after the other, going
  around the address space.
\<close>

lemma disj_offsets:
  fixes p q :: "32 word"
  assumes "4 \<le> q - p" "4 \<le> p - q"
  shows "q \<noteq> p" "q \<noteq> p + 1" "q \<noteq> p + 2" "q \<noteq> p + 3"
        "q + 1 \<noteq> p" "q + 1 \<noteq> p + 1" "q + 1 \<noteq> p + 2" "q + 1 \<noteq> p + 3"
        "q + 2 \<noteq> p" "q + 2 \<noteq> p + 1" "q + 2 \<noteq> p + 2" "q + 2 \<noteq> p + 3"
        "q + 3 \<noteq> p" "q + 3 \<noteq> p + 1" "q + 3 \<noteq> p + 2" "q + 3 \<noteq> p + 3"
  using assms by (auto simp: word_le_nat_alt)

lemma load32_store32_disj:
  "4 \<le> q - p \<Longrightarrow> 4 \<le> p - q \<Longrightarrow> load32 (store32 m p v) q = load32 m q"
  by (simp add: load32_def store32_apply disj_offsets)

lemma store32_store32_same: "store32 (store32 m p v) p w = store32 m p w"
  by (rule ext) (simp add: store32_apply)

lemmas macro_defs = WSIZE_def DSIZE_def CHUNKSIZE_def MINIMUM_def PACK_def GET_def PUT_def
  GET_SIZE_def GET_ALLOC_def GET_ALIGN_def HDRP_def FTRP_def NEXT_BLKP_def PREV_BLKP_def
  NEXT_FREE_def PREV_FREE_def SIZE_T_SIZE_def ALIGN_def

lemmas op_defs = add_freeblock_def remove_freeblock_def coalesce_def extend_heap_def place_def
  mem_sbrk_def

lemmas mem_simps = load32_store32_same load32_store32_disj store32_store32_same

section \<open>Null and zero-size requests\<close>

text \<open>
  Claim C9. \<^verbatim>\<open>mm_malloc(0)\<close> returns the null pointer and leaves the whole state as it
  was: the memory, the break (the heap does not grow) and the three globals.
\<close>

theorem mm_malloc_zero: "mm_malloc s 0 = Some (s, 0)"
  by (simp add: mm_malloc_def)

text \<open>
  Claim C8. \<^verbatim>\<open>mm_free(ptr)\<close> returns the state unchanged when \<open>ptr\<close> is null, and
  for any \<open>ptr\<close> when \<^verbatim>\<open>heap_listp\<close> is null, which is the case in a process that has
  not called \<^verbatim>\<open>mm_init\<close>. (After an \<^verbatim>\<open>mm_init\<close> whose first \<^verbatim>\<open>mem_sbrk\<close> failed,
  \<^verbatim>\<open>heap_listp\<close> holds the failure value and not null; the theorem says nothing of that
  state.)
\<close>

theorem mm_free_noop:
  "mm_free s 0 = s \<and>
   mm_free (fresh m base limit) ptr = fresh m base limit \<and>
   (heap_listp s = 0 \<longrightarrow> mm_free s ptr = s)"
  by (simp add: mm_free_def fresh_def)

theorem mm_free_noop_witness:
  "heap_listp (fresh (\<lambda>_. 0) 0x10000 0x1410000) = 0 \<and>
   mm_free (fresh (\<lambda>_. 0) 0x10000 0x1410000) 0x10010 = fresh (\<lambda>_. 0) 0x10000 0x1410000"
  using mm_free_noop [where s = "fresh (\<lambda>_. 0) 0x10000 0x1410000" and ptr = "0x10010"]
  by (simp add: fresh_def)

section \<open>The adjusted size\<close>

lemma adjusted_size_large:
  "\<not> s \<le> 8 \<Longrightarrow> adjusted_size s = 8 * ((s + 15) div 8)"
  by (simp add: adjusted_size_def DSIZE_def MINIMUM_def add.commute)

lemma adjusted_size_unat:
  assumes "8 < s" "s \<le> 0xFFFFFFF0"
  shows "unat (adjusted_size s) = 8 * ((unat s + 15) div 8)"
proof -
  define x where "x = s + 15"
  have s: "unat s \<le> 4294967280" using assms(2) by (simp add: word_le_nat_alt)
  have a: "unat x = unat s + 15"
    unfolding x_def using s by (simp add: unat_word_ariths)
  have d: "unat (x div 8) = (unat s + 15) div 8"
    by (simp add: unat_div a)
  have b: "8 * ((unat s + 15) div 8) < 4294967296" using s by simp
  have "unat (8 * (x div 8)) = 8 * unat (x div 8) mod 4294967296"
    by (simp add: unat_word_ariths(2))
  then have "unat (8 * (x div 8)) = 8 * ((unat s + 15) div 8)"
    using b by (simp add: d)
  moreover have "adjusted_size s = 8 * (x div 8)"
    unfolding x_def using assms(1) by (intro adjusted_size_large) simp
  ultimately show ?thesis by simp
qed

lemma ceil8: "\<lceil>(real n + 8) / 8\<rceil> = int ((n + 15) div 8)"
proof -
  have "\<lceil>(real n + 8) / 8\<rceil> = \<lceil>real_of_int (int n + 8) / real_of_int 8\<rceil>" by simp
  also have "\<dots> = - (- (int n + 8) div 8)" by (rule ceiling_divide_eq_div)
  also have "\<dots> = int ((n + 15) div 8)" by (simp add: zdiv_int)
  finally show ?thesis .
qed

text \<open>
  When the request is among the fifteen largest values of \<^verbatim>\<open>size_t\<close>, the sum
  \<^verbatim>\<open>size + DSIZE + (DSIZE-1)\<close> wraps around and the adjusted size is 0 or 8.
\<close>

lemma adjusted_size_wraps:
  assumes "0xFFFFFFF1 \<le> s"
  shows "adjusted_size s = (if s \<le> 0xFFFFFFF8 then 0 else 8)"
proof -
  define x where "x = s + 15"
  have s: "4294967281 \<le> unat s" using assms by (simp add: word_le_nat_alt)
  have s2: "unat s < 4294967296" using unsigned_less [of s] by simp
  have a: "unat x = unat s + 15 - 4294967296"
    unfolding x_def using s s2 by (simp add: unat_word_ariths mod_if)
  have d: "unat (x div 8) = (unat s + 15 - 4294967296) div 8"
    by (simp add: unat_div a)
  have "\<not> s \<le> 8" using s by (simp add: word_le_nat_alt)
  then have "adjusted_size s = 8 * (x div 8)"
    unfolding x_def by (rule adjusted_size_large)
  moreover have "unat (8 * (x div 8)) = 8 * unat (x div 8) mod 4294967296"
    by (simp add: unat_word_ariths(2))
  ultimately have e: "unat (adjusted_size s) = 8 * ((unat s + 15 - 4294967296) div 8)"
    using s s2 by (simp add: d)
  show ?thesis
  proof (cases "s \<le> 0xFFFFFFF8")
    case True
    then have "unat s \<le> 4294967288" by (simp add: word_le_nat_alt)
    then have "unat (adjusted_size s) = 0" using e s by simp
    then show ?thesis using True by (simp add: unat_eq_0)
  next
    case False
    then have "4294967289 \<le> unat s" by (simp add: word_le_nat_alt)
    then have "unat (adjusted_size s) = 8" using e s2 by simp
    then have "of_nat (unat (adjusted_size s)) = (of_nat 8 :: 32 word)" by simp
    then have "adjusted_size s = 8" by simp
    then show ?thesis using False by simp
  qed
qed

section \<open>Client runs\<close>

text \<open>
  A client of the allocator issues a sequence of requests. \<open>Free i\<close>, \<open>Realloc i n\<close> and
  \<open>Store i bs\<close> refer to the pointer that the \<open>i\<close>-th allocating request of the run
  returned (counting from 0; \<open>Alloc\<close> and \<open>Realloc\<close> both allocate); \<open>Store i bs\<close> is
  the client writing the bytes \<open>bs\<close> at the start of that payload. A run has no result
  when a call does not return or a request names a pointer that does not exist yet.
\<close>

datatype request = Alloc "32 word" | Free nat | Realloc nat "32 word" | Store nat "8 word list"

type_synonym client = "state \<times> addr list"

fun write_bytes :: "memory \<Rightarrow> addr \<Rightarrow> 8 word list \<Rightarrow> memory" where
  "write_bytes m p [] = m"
| "write_bytes m p (b # bs) = write_bytes (m(p := b)) (p + 1) bs"

fun request_step :: "client \<Rightarrow> request \<Rightarrow> client option" where
  "request_step (s, ps) (Alloc n) =
     (case mm_malloc s n of None \<Rightarrow> None | Some (s', p) \<Rightarrow> Some (s', ps @ [p]))"
| "request_step (s, ps) (Free i) =
     (if i < length ps then Some (mm_free s (ps ! i), ps) else None)"
| "request_step (s, ps) (Realloc i n) =
     (if i < length ps then
        (case mm_realloc s (ps ! i) n of None \<Rightarrow> None | Some (s', p) \<Rightarrow> Some (s', ps @ [p]))
      else None)"
| "request_step (s, ps) (Store i bs) =
     (if i < length ps then Some (s\<lparr>mem := write_bytes (mem s) (ps ! i) bs\<rparr>, ps) else None)"

fun run :: "client \<Rightarrow> request list \<Rightarrow> client option" where
  "run c [] = Some c"
| "run c (r # rs) = (case request_step c r of None \<Rightarrow> None | Some c' \<Rightarrow> run c' rs)"

text \<open>
  The sequences of claim C1: only \<open>Alloc\<close> of a positive size and \<open>Free\<close> of a pointer that
  an earlier \<open>Alloc\<close> returned and that has not been freed since. \<open>n\<close> counts the
  allocations so far, \<open>freed\<close> lists the indices already freed.
\<close>

fun alloc_free_only :: "nat \<Rightarrow> nat list \<Rightarrow> request list \<Rightarrow> bool" where
  "alloc_free_only n freed [] = True"
| "alloc_free_only n freed (Alloc k # rs) = (0 < k \<and> alloc_free_only (Suc n) freed rs)"
| "alloc_free_only n freed (Free i # rs) =
     (i < n \<and> i \<notin> set freed \<and> alloc_free_only n (i # freed) rs)"
| "alloc_free_only n freed (Realloc i k # rs) = False"
| "alloc_free_only n freed (Store i bs # rs) = False"

text \<open>What a test harness observes of a client: bytes of a payload, a block's allocated bit.\<close>

definition payload_bytes :: "nat \<Rightarrow> nat \<Rightarrow> client \<Rightarrow> 8 word list" where
  "payload_bytes i n c = map (\<lambda>k. mem (fst c) (snd c ! i + of_nat k)) [0..<n]"

definition alloc_bit :: "nat \<Rightarrow> client \<Rightarrow> 32 word" where
  "alloc_bit i c = GET_ALLOC (fst c) (HDRP (snd c ! i))"

definition returned :: "nat \<Rightarrow> client \<Rightarrow> addr" where
  "returned i c = snd c ! i"

text \<open>
  A concrete arena for the closed examples: 20 MiB of zero bytes at address \<open>0x10000\<close>.
\<close>

definition example_arena :: state where
  "example_arena = fresh (\<lambda>_. 0) 0x10000 0x1410000"

definition example_heap :: state where
  "example_heap = fst (mm_init example_arena)"

section \<open>Evaluating runs on a freshly initialised heap\<close>

text \<open>
  Addresses of a run are the arena's base plus a constant; \<open>off\<close> keeps the two apart
  while the simplifier evaluates a run for an arbitrary base.
\<close>

definition off :: "addr \<Rightarrow> 32 word \<Rightarrow> addr" where
  "off b k = b + k"

lemma off_arith:
  "off b k + numeral n = off b (k + numeral n)"
  "off b k - numeral n = off b (k - numeral n)"
  "off b k + 1 = off b (k + 1)"
  "off b j - off b k = j - k"
  "off b k - b = k"
  "b - off b k = - k"
  "(off b j = off b k) = (j = k)"
  "(off b k = b) = (k = 0)"
  "(b = off b k) = (k = 0)"
  by (simp_all add: off_def)

lemma no_wrap:
  fixes base limit k :: "32 word"
  shows "unat base + n \<le> unat limit \<Longrightarrow> unat k \<le> n \<Longrightarrow> unat (base + k) = unat base + unat k"
  by unat_arith

lemma unat_minus_one_32: "unat (- 1 :: 32 word) = 4294967295"
  by (simp add: unsigned_minus_1_eq_mask mask_eq_exp_minus_1)

lemma off_bounds:
  fixes b limit :: "32 word"
  assumes "unat b + n \<le> unat limit"
  shows "unat k \<le> n \<Longrightarrow> unat (off b k) = unat b + unat k"
    and "unat k \<le> n \<Longrightarrow> k \<noteq> 0 \<Longrightarrow> off b k \<noteq> 0"
    and "unat k < n \<Longrightarrow> off b k \<noteq> - 1"
    and "0 < n \<Longrightarrow> b \<noteq> - 1"
    and "unat j \<le> n \<Longrightarrow> unat k \<le> n \<Longrightarrow> (off b j < off b k) = (j < k)"
    and "unat j \<le> n \<Longrightarrow> unat k \<le> n \<Longrightarrow> (off b j \<le> off b k) = (j \<le> k)"
proof -
  have lim: "unat limit < 4294967296" using unsigned_less [of limit] by simp
  show u: "unat (off b k) = unat b + unat k" if "unat k \<le> n" for k
    unfolding off_def by (rule no_wrap [OF assms that])
  show "off b k \<noteq> 0" if "unat k \<le> n" "k \<noteq> 0"
  proof
    assume "off b k = 0"
    then have "unat (off b k) = 0" by simp
    then have "unat k = 0" using u [OF that(1)] by simp
    then show False using that(2) by (simp add: unat_eq_0)
  qed
  show "off b k \<noteq> - 1" if "unat k < n"
  proof
    assume "off b k = - 1"
    then have "unat (off b k) = 4294967295" using unat_minus_one_32 by simp
    then show False using u [of k] that assms lim by simp
  qed
  show "b \<noteq> - 1" if "0 < n"
  proof
    assume "b = - 1"
    then have "unat b = 4294967295" using unat_minus_one_32 by simp
    then show False using assms lim that by simp
  qed
  show "(off b j < off b k) = (j < k)" if "unat j \<le> n" "unat k \<le> n"
    using that by (simp add: word_less_nat_alt u)
  show "(off b j \<le> off b k) = (j \<le> k)" if "unat j \<le> n" "unat k \<le> n"
    using that by (simp add: word_le_nat_alt u)
qed

lemma load32_fun_upd_disj:
  "4 \<le> a - q \<Longrightarrow> load32 (m(a := b)) q = load32 m q"
  by (auto simp: load32_def word_le_nat_alt)

lemma load32_memcpy_disj:
  "\<not> q - dst < n \<Longrightarrow> \<not> q + 1 - dst < n \<Longrightarrow> \<not> q + 2 - dst < n \<Longrightarrow>
   \<not> q + 3 - dst < n \<Longrightarrow> load32 (memcpy_mem m dst src n) q = load32 m q"
  by (simp add: load32_def memcpy_mem_def)

lemmas loop_simps = find_fit_from.simps correct_free_marked_from.simps check_freelist_find.simps
  check_freelist_from.simps check_overlap_from.simps check_valid_heap_from.simps
  check_consistency_from.simps

lemmas api_defs = mm_malloc_def mm_free_def mm_realloc_def find_fit_def adjusted_size_def

lemmas check_defs = mm_check_def correct_free_marked_def check_coalescing_def check_freelist_def
  check_overlap_def check_valid_heap_def check_consistency_def

lemmas run_simps = api_defs loop_simps op_defs macro_defs mem_simps Let_def off_arith

text \<open>
  \<^verbatim>\<open>mm_init\<close> succeeds exactly when the arena has room for the four initial words and
  the first chunk; the heap it leaves is the same in every such arena, up to the base
  address: padding, prologue, one free block of 4096 bytes that is the whole free list,
  and the epilogue. The global \<^verbatim>\<open>epilogue\<close> still points at the first epilogue, which
  the free block's header has replaced.
\<close>

lemma mm_init_fresh:
  assumes cap: "unat base + 4112 \<le> unat limit"
  shows "mm_init (fresh m base limit) =
   (\<lparr>mem =
       store32 (store32 (store32 (store32 (store32 (store32 (store32 (store32 m
         base 0) (off base 4) 9) (off base 8) 9) (off base 12) 4096)
         (off base 4104) 4096) (off base 4108) 1) (off base 16) 0) (off base 20) 0,
     mem_brk = off base 4112, mem_max_addr = limit,
     heap_listp = off base 8, free_listp = off base 16, epilogue = off base 12\<rparr>,
    0)"
proof -
  have conv: "\<And>k. base + k = off base k" by (simp add: off_def)
  note ob = off_bounds [OF cap]
  show ?thesis
    using cap
    by (simp add: mm_init_def fresh_def op_defs macro_defs mem_simps Let_def conv off_arith ob)
qed

lemma mm_init_refused:
  assumes "\<not> unat base + 4112 \<le> unat limit"
  shows "snd (mm_init (fresh m base limit)) = - 1"
proof (cases "unat limit < unat base + 16")
  case True
  then show ?thesis
    by (simp add: mm_init_def fresh_def mem_sbrk_def macro_defs Let_def)
next
  case False
  then have u: "unat (base + 16) = unat base + 16"
    using no_wrap [of base 16 limit 16] by simp
  have lim: "unat limit < 4294967296" using unsigned_less [of limit] by simp
  have "base \<noteq> - 1"
  proof
    assume "base = - 1"
    then have "unat base = 4294967295" using unat_minus_one_32 by simp
    then show False using False lim by simp
  qed
  then show ?thesis
    using False assms u
    by (simp add: mm_init_def fresh_def extend_heap_def mem_sbrk_def macro_defs Let_def)
qed

lemma mm_init_success:
  assumes "mm_init (fresh m base limit) = (s0, 0)"
  shows "unat base + 4112 \<le> unat limit"
proof (rule ccontr)
  assume "\<not> unat base + 4112 \<le> unat limit"
  then have "snd (mm_init (fresh m base limit)) = - 1" by (rule mm_init_refused)
  then show False using assms by simp
qed

lemma example_cap: "unat (0x10000 :: 32 word) + 4112 \<le> unat (0x1410000 :: 32 word)"
  by simp

lemma example_init: "mm_init example_arena = (example_heap, 0)"
  using mm_init_fresh [OF example_cap, of "\<lambda>_. 0"]
  by (simp add: example_heap_def example_arena_def)

section \<open>First fit takes the head of the free list\<close>

text \<open>
  Claim C6. After a successful \<^verbatim>\<open>mm_init\<close> in any arena, the calls
  \<^verbatim>\<open>a = alloc(16); b = alloc(16); c = alloc(16); free(b)\<close> all return, they leave
  \<^verbatim>\<open>free_listp\<close> equal to \<open>b\<close>, and the next \<^verbatim>\<open>alloc(16)\<close> returns the pointer \<open>b\<close>.
\<close>

theorem first_fit_selects_head:
  assumes "mm_init (fresh m base limit) = (s0, 0)"
  shows "\<exists>s ps s'. run (s0, []) [Alloc 16, Alloc 16, Alloc 16, Free 1] = Some (s, ps) \<and>
           free_listp s = ps ! 1 \<and> ps ! 1 \<noteq> 0 \<and> mm_malloc s 16 = Some (s', ps ! 1)"
proof -
  have cap: "unat base + 4112 \<le> unat limit" using assms by (rule mm_init_success)
  note ob = off_bounds [OF cap]
  have s0: "s0 = fst (mm_init (fresh m base limit))" using assms by simp
  show ?thesis
    unfolding s0 mm_init_fresh [OF cap]
    by (simp add: run_simps ob)
qed

theorem first_fit_selects_head_witness:
  "mm_init example_arena = (example_heap, 0) \<and>
   (\<exists>s ps s'. run (example_heap, []) [Alloc 16, Alloc 16, Alloc 16, Free 1] = Some (s, ps) \<and>
      free_listp s = ps ! 1 \<and> ps ! 1 \<noteq> 0 \<and> mm_malloc s 16 = Some (s', ps ! 1))"
  using first_fit_selects_head [of "\<lambda>_. 0" "0x10000" "0x1410000" example_heap] example_init
  by (simp add: example_arena_def)

section \<open>The adjusted size on a fresh heap\<close>

lemmas run_simps' = mm_malloc_def mm_free_def mm_realloc_def find_fit_def
  loop_simps op_defs macro_defs mem_simps Let_def off_arith

lemma small_allocs:
  assumes cap: "unat base + 4112 \<le> unat limit"
  shows "\<exists>s' p. mm_malloc (fst (mm_init (fresh m base limit))) 1 = Some (s', p) \<and> GET s' (HDRP p) = PACK 16 1"
    and "\<exists>s' p. mm_malloc (fst (mm_init (fresh m base limit))) 8 = Some (s', p) \<and> GET s' (HDRP p) = PACK 16 1"
    and "\<exists>s' p. mm_malloc (fst (mm_init (fresh m base limit))) 9 = Some (s', p) \<and> GET s' (HDRP p) = PACK 24 1"
proof -
  note ob = off_bounds [OF cap]
  show "\<exists>s' p. mm_malloc (fst (mm_init (fresh m base limit))) 1 = Some (s', p) \<and> GET s' (HDRP p) = PACK 16 1"
    unfolding mm_init_fresh [OF cap] by (simp add: run_simps ob)
  show "\<exists>s' p. mm_malloc (fst (mm_init (fresh m base limit))) 8 = Some (s', p) \<and> GET s' (HDRP p) = PACK 16 1"
    unfolding mm_init_fresh [OF cap] by (simp add: run_simps ob)
  show "\<exists>s' p. mm_malloc (fst (mm_init (fresh m base limit))) 9 = Some (s', p) \<and> GET s' (HDRP p) = PACK 24 1"
    unfolding mm_init_fresh [OF cap] by (simp add: run_simps ob)
qed

text \<open>
  Claim C5, amended. For every request \<open>s\<close> with \<open>0 < s \<le> 2\<^sup>3\<^sup>2 - 16\<close> the adjusted size is
  16 when \<open>s \<le> 8\<close> and \<open>8 * \<lceil>(s + 8) / 8\<rceil>\<close> otherwise; on a freshly initialised heap
  \<^verbatim>\<open>mm_malloc(1)\<close> and \<^verbatim>\<open>mm_malloc(8)\<close> return a block whose header is \<open>(16, allocated)\<close>
  and \<^verbatim>\<open>mm_malloc(9)\<close> one whose header is \<open>(24, allocated)\<close>. (For the fifteen larger
  requests the sum \<open>s + 15\<close> wraps around, see \<open>adjusted_size_wraps\<close>.)
\<close>

theorem adjusted_size_formula:
  assumes "0 < s" "s \<le> 0xFFFFFFF0" and "mm_init (fresh m base limit) = (s0, 0)"
  shows "int (unat (adjusted_size s)) =
           (if unat s \<le> 8 then 16 else 8 * \<lceil>(real (unat s) + 8) / 8\<rceil>) \<and>
         (\<exists>s' p. mm_malloc s0 1 = Some (s', p) \<and> GET s' (HDRP p) = PACK 16 1) \<and>
         (\<exists>s' p. mm_malloc s0 8 = Some (s', p) \<and> GET s' (HDRP p) = PACK 16 1) \<and>
         (\<exists>s' p. mm_malloc s0 9 = Some (s', p) \<and> GET s' (HDRP p) = PACK 24 1)"
proof -
  have cap: "unat base + 4112 \<le> unat limit" using assms(3) by (rule mm_init_success)
  have s0: "s0 = fst (mm_init (fresh m base limit))" using assms(3) by simp
  have "int (unat (adjusted_size s)) =
           (if unat s \<le> 8 then 16 else 8 * \<lceil>(real (unat s) + 8) / 8\<rceil>)"
  proof (cases "s \<le> 8")
    case True
    then show ?thesis by (simp add: adjusted_size_def DSIZE_def MINIMUM_def word_le_nat_alt)
  next
    case False
    then have "8 < s" by simp
    from adjusted_size_unat [OF this assms(2)]
    have "int (unat (adjusted_size s)) = 8 * int ((unat s + 15) div 8)" by simp
    also have "\<dots> = 8 * \<lceil>(real (unat s) + 8) / 8\<rceil>" by (simp only: ceil8)
    finally show ?thesis using False by (simp only: word_le_nat_alt if_False unat_numeral) simp
  qed
  then show ?thesis
    unfolding s0 using small_allocs [OF cap, of m] by blast
qed

theorem adjusted_size_formula_witness:
  "(0 :: 32 word) < 100 \<and> (100 :: 32 word) \<le> 0xFFFFFFF0 \<and>
   mm_init example_arena = (example_heap, 0) \<and>
   adjusted_size 100 = 112 \<and> 8 * \<lceil>(real (unat (100 :: 32 word)) + 8) / 8\<rceil> = 112"
proof -
  have a: "(0 :: 32 word) < 100" "(100 :: 32 word) \<le> 0xFFFFFFF0" by simp_all
  have b: "mm_init (fresh (\<lambda>_. 0) 0x10000 0x1410000) = (example_heap, 0)"
    using example_init by (simp add: example_arena_def)
  have c: "adjusted_size 100 = 112" by (simp add: adjusted_size_def DSIZE_def MINIMUM_def)
  have d: "8 * \<lceil>(real (unat (100 :: 32 word)) + 8) / 8\<rceil> = 112" by (simp only: ceil8) simp
  show ?thesis
    using adjusted_size_formula [OF a b] a example_init c d by blast
qed

text \<open>
  The claim as stated, for every \<open>s > 0\<close>, fails at the largest request: the code
  computes 8, the formula asks for \<open>2\<^sup>3\<^sup>2 + 8\<close>.
\<close>

theorem adjusted_size_formula_fails_at_max:
  "adjusted_size 0xFFFFFFFF = 8 \<and>
   8 * \<lceil>(real (unat (0xFFFFFFFF :: 32 word)) + 8) / 8\<rceil> = 4294967304"
  by (simp add: adjusted_size_def DSIZE_def MINIMUM_def)

section \<open>Requests near the largest \<^verbatim>\<open>size_t\<close>\<close>

lemma wrapped_alloc:
  assumes big: "0xFFFFFFF1 \<le> s" and cap: "unat base + 4112 \<le> unat limit"
  shows "\<exists>s' p. mm_malloc (fst (mm_init (fresh m base limit))) s = Some (s', p) \<and> p \<noteq> 0 \<and>
           GET_SIZE s' (HDRP p) < s"
proof -
  note ob = off_bounds [OF cap]
  have nz: "s \<noteq> 0" using big by auto
  have lt: "4096 < s" "8 < s" using big by (simp_all add: word_le_nat_alt word_less_nat_alt)
  show ?thesis
  proof (cases "s \<le> 0xFFFFFFF8")
    case True
    then have a: "adjusted_size s = 0" using adjusted_size_wraps [OF big] by simp
    show ?thesis
      unfolding mm_init_fresh [OF cap]
      by (simp add: run_simps' a nz lt ob)
  next
    case False
    then have a: "adjusted_size s = 8" using adjusted_size_wraps [OF big] by simp
    show ?thesis
      unfolding mm_init_fresh [OF cap]
      by (simp add: run_simps' a nz lt ob)
  qed
qed

lemma adjusted_size_mod:
  assumes "8 < s"
  shows "unat (adjusted_size s) = 8 * (((unat s + 15) mod 2 ^ 32) div 8) mod 2 ^ 32"
proof -
  have "\<not> s \<le> 8" using assms by simp
  then have "adjusted_size s = 8 * ((s + 15) div 8)" by (rule adjusted_size_large)
  then show ?thesis by (simp add: unat_word_ariths unat_div)
qed

lemma floor8_mod:
  fixes n :: nat
  shows "8 * (n div 8) mod 4294967296 = 8 * ((n mod 4294967296) div 8) mod 4294967296"
proof -
  have a: "8 * k mod (8 * 536870912) = 8 * (k mod 536870912)" for k :: nat
    by (rule mult_mod_right [symmetric])
  have "n mod (8 * 536870912) = 8 * (n div 8 mod 536870912) + n mod 8"
    by (rule mod_mult2_eq)
  then have b: "(n mod (8 * 536870912)) div 8 = n div 8 mod 536870912"
    by simp
  have "8 * (n div 8) mod (8 * 536870912)
          = 8 * ((n mod (8 * 536870912)) div 8) mod (8 * 536870912)"
    unfolding b a by simp
  then show ?thesis by simp
qed

lemma adjusted_size_floor:
  assumes "8 < s"
  shows "unat (adjusted_size s) = 8 * ((unat s + 15) div 8) mod 2 ^ 32"
  using adjusted_size_mod [OF assms] floor8_mod [of "unat s + 15"] by simp

text \<open>
  Claim C10, amended. For every \<open>s > 8\<close> the adjusted size is \<open>8 * \<lfloor>(s + 15) / 8\<rfloor>\<close> modulo
  \<open>2\<^sup>3\<^sup>2\<close>, which is also what the code's own steps give: the sum \<open>s + 15\<close> is reduced
  modulo \<open>2\<^sup>3\<^sup>2\<close>, divided by 8, and the product with 8 is reduced again. For each of the
  fifteen requests \<open>s \<ge> 2\<^sup>3\<^sup>2 - 15\<close> (those within 14 of the largest \<^verbatim>\<open>size_t\<close>) it wraps to
  a value below \<open>s\<close> and below the 16-byte minimum, and \<^verbatim>\<open>mm_malloc(s)\<close> on a freshly
  initialised heap returns a non-null pointer to a block whose size, header and footer
  included, is less than \<open>s\<close>.
\<close>

theorem adjusted_size_wraps_near_max:
  assumes "mm_init (fresh m base limit) = (s0, 0)"
  shows "(8 < s \<longrightarrow>
            unat (adjusted_size s) = 8 * ((unat s + 15) div 8) mod 2 ^ 32 \<and>
            unat (adjusted_size s) = 8 * (((unat s + 15) mod 2 ^ 32) div 8) mod 2 ^ 32) \<and>
         (0xFFFFFFF1 \<le> s \<longrightarrow>
            adjusted_size s < s \<and> adjusted_size s < MINIMUM \<and>
            (\<exists>s' p. mm_malloc s0 s = Some (s', p) \<and> p \<noteq> 0 \<and>
               GET_SIZE s' (HDRP p) < s))"
proof -
  have cap: "unat base + 4112 \<le> unat limit" using assms by (rule mm_init_success)
  have s0: "s0 = fst (mm_init (fresh m base limit))" using assms by simp
  have 1: "unat (adjusted_size s) = 8 * ((unat s + 15) div 8) mod 2 ^ 32 \<and>
           unat (adjusted_size s) = 8 * (((unat s + 15) mod 2 ^ 32) div 8) mod 2 ^ 32"
    if "8 < s"
    using adjusted_size_floor [OF that] adjusted_size_mod [OF that] by blast
  have 2: "adjusted_size s < s \<and> adjusted_size s < MINIMUM \<and>
           (\<exists>s' p. mm_malloc s0 s = Some (s', p) \<and> p \<noteq> 0 \<and> GET_SIZE s' (HDRP p) < s)"
    if big: "0xFFFFFFF1 \<le> s"
  proof -
    have lt: "8 < s" using big by (simp add: word_le_nat_alt word_less_nat_alt)
    have "adjusted_size s = 0 \<or> adjusted_size s = 8"
      using adjusted_size_wraps [OF big] by (simp split: if_splits)
    then have "adjusted_size s < s \<and> adjusted_size s < MINIMUM"
      using lt by (auto simp: MINIMUM_def word_less_nat_alt)
    then show ?thesis
      using wrapped_alloc [OF big cap, of m] unfolding s0 by blast
  qed
  show ?thesis using 1 2 by blast
qed

theorem adjusted_size_wraps_near_max_witness:
  "(8 :: 32 word) < 0xFFFFFFFF \<and> (0xFFFFFFF1 :: 32 word) \<le> 0xFFFFFFFF \<and>
   mm_init example_arena = (example_heap, 0) \<and>
   adjusted_size 0xFFFFFFFF = 8 \<and>
   unat (adjusted_size 0xFFFFFFFF) = 8 * ((unat (0xFFFFFFFF :: 32 word) + 15) div 8) mod 2 ^ 32 \<and>
   adjusted_size 0xFFFFFFFF < MINIMUM \<and>
   (\<exists>s' p. mm_malloc example_heap 0xFFFFFFFF = Some (s', p) \<and> p \<noteq> 0 \<and>
      GET_SIZE s' (HDRP p) < 0xFFFFFFFF)"
proof -
  have a: "(0xFFFFFFF1 :: 32 word) \<le> 0xFFFFFFFF" "(8 :: 32 word) < 0xFFFFFFFF" by simp_all
  have b: "mm_init (fresh (\<lambda>_. 0) 0x10000 0x1410000) = (example_heap, 0)"
    using example_init by (simp add: example_arena_def)
  have c: "adjusted_size 0xFFFFFFFF = 8" by (simp add: adjusted_size_def DSIZE_def MINIMUM_def)
  show ?thesis
    using adjusted_size_wraps_near_max [OF b, of "0xFFFFFFFF"] a example_init c by blast
qed

text \<open>
  The claim as stated covers every \<open>s\<close> within 15 of the largest \<^verbatim>\<open>size_t\<close>. At
  distance exactly 15 the sum \<open>s + 15\<close> is \<open>2\<^sup>3\<^sup>2 - 1\<close> and does not wrap: the adjusted size is
  \<open>2\<^sup>3\<^sup>2 - 8\<close>, neither below \<open>s\<close> nor below the minimum.
\<close>

theorem adjusted_size_at_max_minus_15:
  "(0xFFFFFFFF :: 32 word) - 0xFFFFFFF0 = 15 \<and> adjusted_size 0xFFFFFFF0 = 0xFFFFFFF8 \<and>
   \<not> adjusted_size 0xFFFFFFF0 < 0xFFFFFFF0 \<and> \<not> adjusted_size 0xFFFFFFF0 < MINIMUM"
  by (simp add: adjusted_size_def DSIZE_def MINIMUM_def)

section \<open>Reallocation\<close>

text \<open>
  Claim C7, amended. \<^verbatim>\<open>mm_realloc(ptr, 0)\<close> returns the null pointer and leaves the whole
  state unchanged, for every state and pointer: \<^verbatim>\<open>mm_malloc(0)\<close> returns null, which
  \<^verbatim>\<open>mm_realloc\<close> takes for a failed allocation and returns at once, before the call of
  \<^verbatim>\<open>mm_free\<close>. The block of \<open>ptr\<close> stays allocated.
\<close>

theorem realloc_zero_keeps_block: "mm_realloc s ptr 0 = Some (s, 0)"
  by (simp add: mm_realloc_def mm_malloc_def)

lemma realloc_zero_run:
  assumes cap: "unat base + 4112 \<le> unat limit"
  shows "map_option (alloc_bit 0)
           (run (fst (mm_init (fresh m base limit)), []) [Alloc 10, Realloc 0 0]) = Some 1"
    and "map_option (returned 1)
           (run (fst (mm_init (fresh m base limit)), []) [Alloc 10, Realloc 0 0]) = Some 0"
    and "map_option (alloc_bit 0)
           (run (fst (mm_init (fresh m base limit)), []) [Alloc 10, Free 0]) = Some 0"
proof -
  note ob = off_bounds [OF cap]
  show "map_option (alloc_bit 0)
           (run (fst (mm_init (fresh m base limit)), []) [Alloc 10, Realloc 0 0]) = Some 1"
    unfolding mm_init_fresh [OF cap]
    by (simp add: run_simps alloc_bit_def ob)
  show "map_option (returned 1)
           (run (fst (mm_init (fresh m base limit)), []) [Alloc 10, Realloc 0 0]) = Some 0"
    unfolding mm_init_fresh [OF cap]
    by (simp add: run_simps returned_def ob)
  show "map_option (alloc_bit 0)
           (run (fst (mm_init (fresh m base limit)), []) [Alloc 10, Free 0]) = Some 0"
    unfolding mm_init_fresh [OF cap]
    by (simp add: run_simps alloc_bit_def ob)
qed

text \<open>
  The claim as stated fails on the example heap: after \<^verbatim>\<open>p = alloc(10); realloc(p, 0)\<close>
  the block of \<open>p\<close> still has its allocated bit set, while \<^verbatim>\<open>free(p)\<close> clears it.
\<close>

theorem realloc_zero_does_not_free:
  "map_option (alloc_bit 0) (run (example_heap, []) [Alloc 10, Realloc 0 0]) = Some 1 \<and>
   map_option (returned 1) (run (example_heap, []) [Alloc 10, Realloc 0 0]) = Some 0 \<and>
   map_option (alloc_bit 0) (run (example_heap, []) [Alloc 10, Free 0]) = Some 0"
  unfolding example_heap_def example_arena_def
  using realloc_zero_run [OF example_cap, of "\<lambda>_. 0"] by blast

lemma SIZE_T_SIZE_eq: "SIZE_T_SIZE = 8"
  by (simp add: SIZE_T_SIZE_def ALIGN_def)

lemma store_run:
  assumes cap: "unat base + 4112 \<le> unat limit"
  shows "map_option (payload_bytes 0 10)
           (run (fst (mm_init (fresh m base limit)), [])
              [Alloc 10, Store 0 [1, 2, 3, 4, 5, 6, 7, 8, 9, 10]])
         = Some [1, 2, 3, 4, 5, 6, 7, 8, 9, 10]"
proof -
  have conv: "\<And>k. base + k = off base k" by (simp add: off_def)
  note ob = off_bounds [OF cap]
  show ?thesis
    unfolding mm_init_fresh [OF cap]
    by (simp add: run_simps ob load32_fun_upd_disj payload_bytes_def upt_rec
        store32_apply conv)
qed

text \<open>
  In every arena, the scenario of the spec copies nine bytes: the tenth byte of the new
  payload is the byte that the arena held there before \<^verbatim>\<open>mm_init\<close>.
\<close>

lemma realloc_run:
  assumes cap: "unat base + 4112 \<le> unat limit"
  shows "map_option (payload_bytes 1 10)
           (run (fst (mm_init (fresh m base limit)), [])
              [Alloc 10, Store 0 [1, 2, 3, 4, 5, 6, 7, 8, 9, 10], Realloc 0 100])
         = Some [1, 2, 3, 4, 5, 6, 7, 8, 9, m (base + 49)]"
proof -
  have conv: "\<And>k. base + k = off base k" by (simp add: off_def)
  note ob = off_bounds [OF cap]
  show ?thesis
    unfolding mm_init_fresh [OF cap]
    apply (simp add: run_simps ob load32_fun_upd_disj load32_memcpy_disj payload_bytes_def upt_rec)
    apply (simp add: memcpy_mem_def store32_apply off_arith conv)
    done
qed

text \<open>
  Claim C2, the code at the spec's scenario. \<^verbatim>\<open>mm_realloc\<close> reads the number of bytes to
  copy from the word at \<^verbatim>\<open>ptr - SIZE_T_SIZE\<close>, eight bytes before the payload: that is
  the footer of the block before, not the header of the block of \<open>ptr\<close>. For the first
  block of the heap it is the prologue footer, \<open>PACK 8 1 = 9\<close>. After
  \<^verbatim>\<open>p = alloc(10)\<close>, ten bytes written at \<open>p\<close> and \<^verbatim>\<open>q = realloc(p, 100)\<close>, the first
  nine bytes at \<open>q\<close> are the client's and the tenth is not.
\<close>

theorem realloc_copies_nine_bytes:
  "map_option (payload_bytes 0 10)
     (run (example_heap, []) [Alloc 10, Store 0 [1, 2, 3, 4, 5, 6, 7, 8, 9, 10]])
     = Some [1, 2, 3, 4, 5, 6, 7, 8, 9, 10] \<and>
   map_option (payload_bytes 1 10)
     (run (example_heap, []) [Alloc 10, Store 0 [1, 2, 3, 4, 5, 6, 7, 8, 9, 10], Realloc 0 100])
     = Some [1, 2, 3, 4, 5, 6, 7, 8, 9, 0]"
  using realloc_run [OF example_cap, of "\<lambda>_. 0"] store_run [OF example_cap, of "\<lambda>_. 0"]
  by (simp add: example_heap_def example_arena_def)

section \<open>The heap checker on heaps that are not well formed\<close>

text \<open>
  \<^verbatim>\<open>check_coalescing\<close> reads the word at \<^verbatim>\<open>heap_listp\<close>, which is the prologue footer,
  and goes on only when its allocated bit is clear. It has no loop.
\<close>

lemma check_coalescing_prologue:
  "GET_ALLOC s (heap_listp s) \<noteq> 0 \<Longrightarrow> check_coalescing s = 1"
  by (simp add: check_coalescing_def)

text \<open>
  A heap with two free neighbours, as a coalescer that missed a case would leave it: the
  block is marked free in header and footer and pushed on the free list, but not merged.
\<close>

definition free_without_coalescing :: "nat \<Rightarrow> client \<Rightarrow> client" where
  "free_without_coalescing i c =
     (let s = fst c; ptr = snd c ! i;
          sz = GET_SIZE s (HDRP ptr);
          s1 = PUT s (HDRP ptr) (PACK sz 0);
          s2 = PUT s1 (FTRP s1 ptr) (PACK sz 0)
      in (add_freeblock s2 ptr, snd c))"

definition next_block :: "nat \<Rightarrow> client \<Rightarrow> addr" where
  "next_block i c = NEXT_BLKP (fst c) (snd c ! i)"

definition header_word :: "nat \<Rightarrow> client \<Rightarrow> 32 word" where
  "header_word i c = GET (fst c) (HDRP (snd c ! i))"

lemma escaped_run:
  assumes cap: "unat base + 4112 \<le> unat limit"
  shows "map_option (\<lambda>c. (header_word 0 c, next_block 0 c = returned 1 c, header_word 1 c,
                          check_coalescing (fst c), mm_check (fst c)))
           (map_option (free_without_coalescing 1) (run (fst (mm_init (fresh m base limit)), [])
              [Alloc 16, Alloc 16, Alloc 16, Free 0])) = Some (24, True, 24, 1, Some 1)"
proof -
  note ob = off_bounds [OF cap]
  show ?thesis
    unfolding mm_init_fresh [OF cap]
    by (simp add: run_simps check_defs header_word_def next_block_def returned_def
          free_without_coalescing_def ob)
qed

lemma wrapped_adjacent_run:
  "map_option (\<lambda>c. (alloc_bit 0 c, next_block 0 c = returned 1 c, alloc_bit 1 c,
                          check_coalescing (fst c)))
           (run (example_heap, [])
              [Alloc 0xFFFFFFFF, Alloc 16, Free 0]) = Some (0, True, 0, 1)"
proof -
  note ob = off_bounds [OF example_cap]
  show ?thesis
    unfolding example_heap_def example_arena_def mm_init_fresh [OF example_cap]
    apply (simp add: run_simps check_defs alloc_bit_def next_block_def returned_def ob)
    apply (simp add: off_def)
    done
qed

text \<open>
  Claim C3, the code on two heaps with free neighbours. In the first, blocks \<open>a\<close> and \<open>b\<close>
  of \<^verbatim>\<open>a = alloc(16); b = alloc(16); c = alloc(16); free(a)\<close> are both marked free and
  on the free list, \<open>b\<close> without having been merged: their headers are both
  \<open>(24, free)\<close> and \<open>b\<close> is the block after \<open>a\<close>. The second is the heap that the calls
  \<^verbatim>\<open>a = alloc(0xFFFFFFFF); b = alloc(16); free(a)\<close> leave: the headers of \<open>a\<close> and of the
  block after it, \<open>b\<close>, both have the allocated bit clear. \<^verbatim>\<open>check_coalescing\<close> returns 1
  on both.
\<close>

theorem check_coalescing_misses_free_neighbours:
  "map_option (check_coalescing \<circ> fst)
     (map_option (free_without_coalescing 1)
        (run (example_heap, []) [Alloc 16, Alloc 16, Alloc 16, Free 0])) = Some 1 \<and>
   map_option (\<lambda>c. (header_word 0 c, next_block 0 c = returned 1 c, header_word 1 c))
     (map_option (free_without_coalescing 1)
        (run (example_heap, []) [Alloc 16, Alloc 16, Alloc 16, Free 0]))
     = Some (PACK 24 0, True, PACK 24 0) \<and>
   map_option (check_coalescing \<circ> fst)
     (run (example_heap, []) [Alloc 0xFFFFFFFF, Alloc 16, Free 0]) = Some 1 \<and>
   map_option (\<lambda>c. (alloc_bit 0 c, next_block 0 c = returned 1 c, alloc_bit 1 c))
     (run (example_heap, []) [Alloc 0xFFFFFFFF, Alloc 16, Free 0]) = Some (0, True, 0)"
proof -
  have a: "map_option (\<lambda>c. (header_word 0 c, next_block 0 c = returned 1 c, header_word 1 c,
                          check_coalescing (fst c), mm_check (fst c)))
           (map_option (free_without_coalescing 1) (run (example_heap, [])
              [Alloc 16, Alloc 16, Alloc 16, Free 0])) = Some (24, True, 24, 1, Some 1)"
    unfolding example_heap_def example_arena_def by (rule escaped_run [OF example_cap])
  show ?thesis
    using a wrapped_adjacent_run
    by (auto simp add: PACK_def map_option_case split: option.splits)
qed

text \<open>
  A request whose adjusted size wraps to 8 gets a block of 8 bytes, header and footer
  only. When that block is freed between allocated neighbours, \<^verbatim>\<open>add_freeblock\<close> writes
  its two link words over the block's own footer and over the header of the next block.
  In every arena, after \<^verbatim>\<open>a = alloc(0xFFFFFFFF); b = alloc(4080); free(a); free(b)\<close>
  \<^verbatim>\<open>mm_check\<close> returns 0.
\<close>

lemma wrapped_request_run:
  assumes cap: "unat base + 4112 \<le> unat limit"
  shows "map_option (mm_check \<circ> fst)
           (run (fst (mm_init (fresh m base limit)), [])
              [Alloc 0xFFFFFFFF, Alloc 4080, Free 0, Free 1]) = Some (Some 0)"
proof -
  note ob = off_bounds [OF cap]
  show ?thesis
    unfolding mm_init_fresh [OF cap]
    by (simp add: run_simps check_defs ob)
qed

text \<open>
  Claim C1, the code at a failing run. On the example heap \<^verbatim>\<open>mm_init\<close> succeeds, the
  four requests are allocations of positive sizes and frees of live pointers, every call
  returns, and \<^verbatim>\<open>mm_check\<close> then returns 0.
\<close>

theorem mm_check_fails_after_wrapped_request:
  "snd (mm_init example_arena) = 0 \<and>
   alloc_free_only 0 [] [Alloc 0xFFFFFFFF, Alloc 4080, Free 0, Free 1] \<and>
   map_option (mm_check \<circ> fst)
     (run (example_heap, []) [Alloc 0xFFFFFFFF, Alloc 4080, Free 0, Free 1]) = Some (Some 0)"
proof -
  have "snd (mm_init example_arena) = 0" using example_init by simp
  moreover have "alloc_free_only 0 [] [Alloc 0xFFFFFFFF, Alloc 4080, Free 0, Free 1]" by simp
  moreover have "map_option (mm_check \<circ> fst)
     (run (example_heap, []) [Alloc 0xFFFFFFFF, Alloc 4080, Free 0, Free 1]) = Some (Some 0)"
    unfolding example_heap_def example_arena_def by (rule wrapped_request_run [OF example_cap])
  ultimately show ?thesis by blast
qed

section \<open>Addresses as natural numbers\<close>

text \<open>
  The rest of the development states what a well-formed heap is and proves what
  \<^verbatim>\<open>coalesce\<close> does in one. Positions in the heap are natural numbers below \<open>2\<^sup>3\<^sup>2\<close>;
  \<open>ptr\<close> turns a position into the pointer the code works with.
\<close>

definition ptr :: "nat \<Rightarrow> addr" where
  "ptr p = of_nat p"

lemma ptr_0 [simp]: "ptr 0 = 0"
  by (simp add: ptr_def)

lemma ptr_add: "ptr a + ptr b = ptr (a + b)"
  by (simp add: ptr_def)

lemma ptr_add_numeral [simp]: "ptr a + numeral n = ptr (a + numeral n)"
  by (simp add: ptr_def)

lemma ptr_sub: "b \<le> a \<Longrightarrow> ptr a - ptr b = ptr (a - b)"
  by (simp add: ptr_def)

lemma ptr_sub_numeral: "numeral n \<le> a \<Longrightarrow> ptr a - numeral n = ptr (a - numeral n)"
  by (simp add: ptr_def)

lemma unat_ptr: "a < 2 ^ 32 \<Longrightarrow> unat (ptr a) = a"
  by (simp add: ptr_def unat_of_nat)

lemma ptr_unat [simp]: "ptr (unat w) = w"
  by (simp add: ptr_def)

lemma ptr_eq_iff: "a < 2 ^ 32 \<Longrightarrow> b < 2 ^ 32 \<Longrightarrow> (ptr a = ptr b) = (a = b)"
  by (metis unat_ptr)

lemma ptr_eq_0_iff: "a < 2 ^ 32 \<Longrightarrow> (ptr a = 0) = (a = 0)"
  using ptr_eq_iff [of a 0] by simp

lemma ptr_sep:
  assumes "w + 4 \<le> w'" "w' + 4 \<le> 2 ^ 32"
  shows "4 \<le> ptr w' - ptr w" "4 \<le> ptr w - ptr w'"
proof -
  have uw: "unat (ptr w) = w" "unat (ptr w') = w'" using assms by (simp_all add: unat_ptr)
  have "unat (ptr w' - ptr w) = w' - w"
    using assms by (simp add: unat_sub_if_size uw)
  then show "4 \<le> ptr w' - ptr w" using assms by (simp add: word_le_nat_alt)
  have "unat (ptr w - ptr w') = w + 2 ^ 32 - w'"
    using assms by (simp add: unat_sub_if_size uw word_size)
  then show "4 \<le> ptr w - ptr w'" using assms by (simp add: word_le_nat_alt)
qed

lemma GET_PUT_cell:
  assumes "w mod 4 = 0" "w' mod 4 = 0" "w + 4 \<le> 2 ^ 32" "w' + 4 \<le> 2 ^ 32"
  shows "GET (PUT s (ptr w) v) (ptr w') = (if w' = w then v else GET s (ptr w'))"
proof (cases "w' = w")
  case True
  then show ?thesis by (simp add: GET_def PUT_def load32_store32_same)
next
  case False
  then have "w + 4 \<le> w' \<or> w' + 4 \<le> w" using assms(1,2) by presburger
  then have "4 \<le> ptr w' - ptr w \<and> 4 \<le> ptr w - ptr w'"
    using ptr_sep [of w w'] ptr_sep [of w' w] assms(3,4) by blast
  then show ?thesis using False by (simp add: GET_def PUT_def load32_store32_disj)
qed

lemma PUT_fields [simp]:
  "heap_listp (PUT s p v) = heap_listp s"
  "free_listp (PUT s p v) = free_listp s"
  "epilogue (PUT s p v) = epilogue s"
  "mem_brk (PUT s p v) = mem_brk s"
  "mem_max_addr (PUT s p v) = mem_max_addr s"
  by (simp_all add: PUT_def)

lemma GET_free_listp_update [simp]: "GET (s\<lparr>free_listp := x\<rparr>) p = GET s p"
  by (simp add: GET_def)

lemma PUT_free_listp_update: "PUT (s\<lparr>free_listp := x\<rparr>) p v = (PUT s p v)\<lparr>free_listp := x\<rparr>"
  by (simp add: PUT_def)

text \<open>
  \<open>hw z a\<close> is the word that \<^verbatim>\<open>PACK\<close> builds for a block of \<open>z\<close> bytes, allocated when
  \<open>a\<close> holds; a block carries it as header and as footer.
\<close>

definition hw :: "nat \<Rightarrow> bool \<Rightarrow> 32 word" where
  "hw z a = PACK (of_nat z) (if a then 1 else 0)"

lemma of_nat_and7:
  assumes "z mod 8 = 0"
  shows "(of_nat z :: 32 word) AND 7 = 0"
proof -
  have "(of_nat z :: 32 word) AND mask 3 = of_nat (z mod 2 ^ 3)"
    by (metis of_nat_take_bit take_bit_eq_mask take_bit_eq_mod)
  then show ?thesis using assms by (simp add: mask_eq_exp_minus_1)
qed

lemma and_not_absorb:
  fixes x m :: "32 word"
  assumes "x AND m = 0"
  shows "x AND NOT m = x"
proof -
  have "x = (x AND m) OR (x AND NOT m)"
    by (simp flip: bit.conj_disj_distrib)
  then show ?thesis using assms by simp
qed

lemma GET_SIZE_hw:
  assumes "GET s p = hw z a" "z mod 8 = 0"
  shows "GET_SIZE s p = of_nat z"
proof -
  have 1: "(of_nat z :: 32 word) AND NOT 7 = of_nat z"
    using of_nat_and7 [OF assms(2)] by (rule and_not_absorb)
  have 2: "(1 :: 32 word) AND NOT 7 = 0" by simp
  show ?thesis
    unfolding GET_SIZE_def assms(1) hw_def PACK_def
    by (cases a) (simp_all only: bit.conj_disj_distrib2 1 2 if_True if_False, simp_all)
qed

lemma GET_ALLOC_hw:
  assumes "GET s p = hw z a" "z mod 8 = 0"
  shows "GET_ALLOC s p = (if a then 1 else 0)"
proof -
  have "(of_nat z :: 32 word) AND 1 = of_nat z AND (7 AND 1)" by simp
  also have "\<dots> = (of_nat z AND 7) AND 1" by (simp only: and.assoc)
  also have "\<dots> = 0" using of_nat_and7 [OF assms(2)] by simp
  finally have 1: "(of_nat z :: 32 word) AND 1 = 0" .
  show ?thesis
    unfolding GET_ALLOC_def assms(1) hw_def PACK_def
    by (cases a) (simp_all add: bit.conj_disj_distrib2 1)
qed

section \<open>Block layouts\<close>

text \<open>
  A layout is the list of the heap's blocks in address order, each with its size in bytes
  and its allocated flag. \<open>blocks s p bs\<close> says that the memory of \<open>s\<close> holds the blocks
  \<open>bs\<close> one after the other, the first with payload address \<open>p\<close>: the header of a block
  is the word before its payload and its footer, the last word of the block, repeats it.
  \<open>extent\<close> is the number of bytes of a layout, \<open>starts\<close> the payload addresses of its
  blocks and \<open>free_starts\<close> those of its free blocks; \<open>no_free_pair\<close> says that no two
  neighbours are both free. \<open>links s prev xs e\<close> says that the blocks at \<open>xs\<close> are chained
  through their first two payload words, \<^verbatim>\<open>PREV_FREE\<close> at the payload address and
  \<^verbatim>\<open>NEXT_FREE\<close> four bytes on: the first points back to \<open>prev\<close> and the last on to \<open>e\<close>.
\<close>

type_synonym block = "nat \<times> bool"

primrec blocks :: "state \<Rightarrow> nat \<Rightarrow> block list \<Rightarrow> bool" where
  "blocks s p [] = True"
| "blocks s p (b # bs) =
     (GET s (ptr (p - 4)) = hw (fst b) (snd b) \<and>
      GET s (ptr (p + fst b - 8)) = hw (fst b) (snd b) \<and>
      blocks s (p + fst b) bs)"

definition extent :: "block list \<Rightarrow> nat" where
  "extent bs = sum_list (map fst bs)"

primrec starts :: "nat \<Rightarrow> block list \<Rightarrow> nat list" where
  "starts p [] = []"
| "starts p (b # bs) = p # starts (p + fst b) bs"

primrec free_starts :: "nat \<Rightarrow> block list \<Rightarrow> nat list" where
  "free_starts p [] = []"
| "free_starts p (b # bs) = (if snd b then [] else [p]) @ free_starts (p + fst b) bs"

primrec no_free_pair :: "block list \<Rightarrow> bool" where
  "no_free_pair [] = True"
| "no_free_pair (b # bs) = ((case bs of [] \<Rightarrow> True | c # cs \<Rightarrow> snd b \<or> snd c) \<and> no_free_pair bs)"

definition head_ptr :: "nat list \<Rightarrow> addr" where
  "head_ptr xs = (case xs of [] \<Rightarrow> 0 | x # ys \<Rightarrow> ptr x)"

primrec links :: "state \<Rightarrow> nat \<Rightarrow> nat list \<Rightarrow> addr \<Rightarrow> bool" where
  "links s prev [] e = True"
| "links s prev (x # xs) e =
     (GET s (ptr x) = ptr prev \<and>
      GET s (ptr (x + 4)) = (case xs of [] \<Rightarrow> e | y # ys \<Rightarrow> ptr y) \<and>
      links s x xs e)"

text \<open>
  A cell is the address of an aligned word. \<open>hf\<close> collects the header and footer cells of
  a layout and \<open>lc\<close> the two link cells of every block of a list. \<open>same_except s s' C\<close>
  says that \<open>s'\<close> differs from \<open>s\<close> in the cells \<open>C\<close> and in \<^verbatim>\<open>free_listp\<close> at most.
\<close>

primrec hf :: "nat \<Rightarrow> block list \<Rightarrow> nat set" where
  "hf p [] = {}"
| "hf p (b # bs) = {p - 4, p + fst b - 8} \<union> hf (p + fst b) bs"

definition lc :: "nat list \<Rightarrow> nat set" where
  "lc xs = set xs \<union> (\<lambda>x. x + 4) ` set xs"

definition cell :: "nat \<Rightarrow> bool" where
  "cell w = (w mod 4 = 0 \<and> w + 4 \<le> 2 ^ 32)"

definition same_except :: "state \<Rightarrow> state \<Rightarrow> nat set \<Rightarrow> bool" where
  "same_except s s' C =
     (heap_listp s' = heap_listp s \<and> epilogue s' = epilogue s \<and> mem_brk s' = mem_brk s \<and>
      mem_max_addr s' = mem_max_addr s \<and>
      (\<forall>w. cell w \<and> w \<notin> C \<longrightarrow> GET s' (ptr w) = GET s (ptr w)))"

lemma same_except_refl: "same_except s s C"
  by (simp add: same_except_def)

lemma same_except_trans:
  "same_except s s' C \<Longrightarrow> same_except s' s'' D \<Longrightarrow> same_except s s'' (C \<union> D)"
  by (simp add: same_except_def)

lemma same_except_mono: "same_except s s' C \<Longrightarrow> C \<subseteq> D \<Longrightarrow> same_except s s' D"
  by (auto simp add: same_except_def)

lemma same_except_PUT: "cell w \<Longrightarrow> same_except s (PUT s (ptr w) v) {w}"
  by (simp add: same_except_def cell_def GET_PUT_cell)

lemma same_except_free_listp: "same_except s (s\<lparr>free_listp := x\<rparr>) {}"
  by (simp add: same_except_def)

lemma extent_simps [simp]:
  "extent [] = 0" "extent (b # bs) = fst b + extent bs" "extent (xs @ ys) = extent xs + extent ys"
  by (simp_all add: extent_def)

lemma blocks_append:
  "blocks s p (xs @ ys) = (blocks s p xs \<and> blocks s (p + extent xs) ys)"
  by (induction xs arbitrary: p) (auto simp: add.assoc)

lemma hf_append: "hf p (xs @ ys) = hf p xs \<union> hf (p + extent xs) ys"
  by (induction xs arbitrary: p) (auto simp: add.assoc)

lemma starts_append: "starts p (xs @ ys) = starts p xs @ starts (p + extent xs) ys"
  by (induction xs arbitrary: p) (auto simp: add.assoc)

lemma free_starts_append:
  "free_starts p (xs @ ys) = free_starts p xs @ free_starts (p + extent xs) ys"
  by (induction xs arbitrary: p) (auto simp: add.assoc)

text \<open>
  \<open>sized n bs\<close>: every block of \<open>bs\<close> has at least \<open>n\<close> bytes, a multiple of 8.
\<close>

definition sized :: "nat \<Rightarrow> block list \<Rightarrow> bool" where
  "sized n bs = (\<forall>b \<in> set bs. n \<le> fst b \<and> fst b mod 8 = 0)"

lemma sized_simps [simp]:
  "sized n []" "sized n (b # bs) = (n \<le> fst b \<and> fst b mod 8 = 0 \<and> sized n bs)"
  "sized n (xs @ ys) = (sized n xs \<and> sized n ys)"
  by (auto simp: sized_def)

lemma sized_extent_mod: "sized n bs \<Longrightarrow> extent bs mod 8 = 0"
  by (induction bs) (auto simp: sized_def)

lemma hf_bounds:
  assumes "sized 8 bs" "w \<in> hf p bs" "4 \<le> p"
  shows "p \<le> w + 4 \<and> w + 8 \<le> p + extent bs"
  using assms
proof (induction bs arbitrary: p)
  case Nil
  then show ?case by simp
next
  case (Cons b bs)
  then show ?case by (fastforce)
qed

lemma hf_cell:
  assumes "sized 8 bs" "w \<in> hf p bs" "4 \<le> p" "p mod 4 = 0" "p + extent bs \<le> 2 ^ 32"
  shows "cell w"
  using assms
proof (induction bs arbitrary: p)
  case Nil
  then show ?case by simp
next
  case (Cons b bs)
  have m: "fst b mod 4 = 0" using Cons.prems(1) by (auto simp: mod_mod_cancel [of 4 8, symmetric] )
  show ?case
  proof (cases "w \<in> hf (p + fst b) bs")
    case True
    have "(p + fst b) mod 4 = 0" using m Cons.prems(4) by presburger
    then show ?thesis using Cons.IH [OF _ True] Cons.prems by (simp add: add.assoc)
  next
    case False
    then have "w = p - 4 \<or> w = p + fst b - 8" using Cons.prems(2) by simp
    moreover have "(p - 4) mod 4 = 0" using Cons.prems(3,4) by presburger
    moreover have "(p + fst b - 8) mod 4 = 0" using Cons.prems(1,3,4) m by (simp, presburger)
    moreover have "8 \<le> fst b" using Cons.prems(1) by simp
    ultimately show ?thesis
      using Cons.prems(3,5) unfolding cell_def by auto
  qed
qed

lemma starts_bounds:
  assumes "sized 8 bs" "x \<in> set (starts p bs)"
  shows "p \<le> x \<and> x + 8 \<le> p + extent bs"
  using assms by (induction bs arbitrary: p) fastforce+

lemma starts_mod:
  assumes "sized 8 bs" "x \<in> set (starts p bs)" "p mod 8 = 0"
  shows "x mod 8 = 0"
  using assms
proof (induction bs arbitrary: p)
  case Nil
  then show ?case by simp
next
  case (Cons b bs)
  have "(p + fst b) mod 8 = 0" using Cons.prems by (simp add: mod_add_eq [symmetric])
  then show ?case using Cons by auto
qed

lemma free_starts_subset: "set (free_starts p bs) \<subseteq> set (starts p bs)"
  by (induction bs arbitrary: p) auto

lemma blocks_frame:
  assumes "same_except s s' C" "C \<inter> hf p bs = {}" "sized 8 bs" "4 \<le> p" "p mod 4 = 0"
    "p + extent bs \<le> 2 ^ 32"
  shows "blocks s' p bs = blocks s p bs"
proof -
  have "\<And>w. w \<in> hf p bs \<Longrightarrow> GET s' (ptr w) = GET s (ptr w)"
    using assms hf_cell [OF assms(3) _ assms(4,5,6)] unfolding same_except_def by blast
  then show ?thesis
  proof (induction bs arbitrary: p)
    case Nil
    then show ?case by simp
  next
    case (Cons b bs)
    then show ?case by (simp add: add.assoc)
  qed
qed

definition okf :: "nat \<Rightarrow> bool" where
  "okf x = (x mod 8 = 0 \<and> 0 < x \<and> x + 8 \<le> 2 ^ 32)"

lemma okf_cells: "okf x \<Longrightarrow> cell x \<and> cell (x + 4)"
  unfolding okf_def cell_def by presburger

lemma okf_ptr: "okf x \<Longrightarrow> ptr x \<noteq> 0"
  unfolding okf_def by (simp add: ptr_eq_0_iff)

lemma okf_ptr_eq: "okf x \<Longrightarrow> okf y \<Longrightarrow> (ptr x = ptr y) = (x = y)"
  unfolding okf_def by (simp add: ptr_eq_iff)

lemma lc_simps [simp]:
  "lc [] = {}" "lc (x # xs) = {x, x + 4} \<union> lc xs" "lc (xs @ ys) = lc xs \<union> lc ys"
  by (auto simp: lc_def)

lemma okf_not_lc:
  assumes "\<forall>x \<in> set xs. okf x" "okf y" "y \<notin> set xs"
  shows "y \<notin> lc xs" "y + 4 \<notin> lc xs"
proof -
  have "y \<noteq> x + 4 \<and> y + 4 \<noteq> x" if "x \<in> set xs" for x
  proof -
    have "x mod 8 = 0" "y mod 8 = 0" using assms(1,2) that by (auto simp: okf_def)
    then show ?thesis by presburger
  qed
  then show "y \<notin> lc xs" "y + 4 \<notin> lc xs" using assms(3) by (auto simp: lc_def)
qed

section \<open>The free list as a list of positions\<close>

lemma links_frame:
  assumes "same_except s s' C" "C \<inter> lc xs = {}" "\<forall>x \<in> set xs. okf x"
  shows "links s' prev xs e = links s prev xs e"
  using assms(2,3)
proof (induction xs arbitrary: prev)
  case Nil
  then show ?case by simp
next
  case (Cons x xs)
  have c: "cell x" "cell (x + 4)" using Cons.prems(2) okf_cells by auto
  have "GET s' (ptr x) = GET s (ptr x)" "GET s' (ptr (x + 4)) = GET s (ptr (x + 4))"
    using assms(1) c Cons.prems(1) unfolding same_except_def by auto
  moreover have "links s' x xs e = links s x xs e"
    using Cons by auto
  ultimately show ?case by simp
qed

lemma links_free_listp_update [simp]:
  "links (s\<lparr>free_listp := x\<rparr>) prev xs e = links s prev xs e"
  by (induction xs arbitrary: prev) simp_all

lemma blocks_free_listp_update [simp]:
  "blocks (s\<lparr>free_listp := x\<rparr>) p bs = blocks s p bs"
  by (induction bs arbitrary: p) simp_all

lemma links_append:
  "links s prev (xs @ ys) e =
     (links s prev xs (case ys of [] \<Rightarrow> e | y # zs \<Rightarrow> ptr y) \<and> links s (last (prev # xs)) ys e)"
proof (induction xs arbitrary: prev)
  case Nil
  then show ?case by simp
next
  case (Cons x xs)
  then show ?case by (cases xs; cases ys) auto
qed

lemma links_set_end:
  assumes "links s prev (xs @ [l]) e" "\<forall>x \<in> set (xs @ [l]). okf x" "distinct (xs @ [l])"
  shows "links (PUT s (ptr (l + 4)) e') prev (xs @ [l]) e'"
proof -
  let ?s = "PUT s (ptr (l + 4)) e'"
  have okl: "okf l" using assms(2) by simp
  have se: "same_except s ?s {l + 4}"
    using okf_cells [OF okl] by (simp add: same_except_PUT)
  have "l + 4 \<notin> lc xs" using okf_not_lc(2) [of xs l] assms(2,3) by simp
  then have 1: "links ?s prev xs (ptr l) = links s prev xs (ptr l)"
    using links_frame [OF se] assms(2) by simp
  have "GET ?s (ptr l) = GET s (ptr l)"
    using okf_cells [OF okl] by (simp add: GET_PUT_cell cell_def)
  moreover have "GET ?s (ptr (l + 4)) = e'"
    using okf_cells [OF okl] by (simp add: GET_PUT_cell cell_def)
  ultimately show ?thesis
    using assms(1) 1 by (simp add: links_append)
qed

lemma links_set_prev:
  assumes "links s prev (y # ys) e" "\<forall>x \<in> set (y # ys). okf x" "distinct (y # ys)"
  shows "links (PUT s (ptr y) (ptr prev')) prev' (y # ys) e"
proof -
  let ?s = "PUT s (ptr y) (ptr prev')"
  have oky: "okf y" using assms(2) by simp
  have se: "same_except s ?s {y}"
    using okf_cells [OF oky] by (simp add: same_except_PUT)
  have "y \<notin> lc ys" using okf_not_lc(1) [of ys y] assms(2,3) by simp
  then have 1: "links ?s y ys e = links s y ys e"
    using links_frame [OF se] assms(2) by simp
  have "GET ?s (ptr (y + 4)) = GET s (ptr (y + 4))"
    using okf_cells [OF oky] by (simp add: GET_PUT_cell cell_def)
  moreover have "GET ?s (ptr y) = ptr prev'"
    using okf_cells [OF oky] by (simp add: GET_PUT_cell cell_def)
  ultimately show ?thesis
    using assms(1) 1 by simp
qed

text \<open>
  \<open>free_list s fl\<close>: the free list of \<open>s\<close>, read from \<^verbatim>\<open>free_listp\<close> along the
  \<^verbatim>\<open>NEXT_FREE\<close> words, is \<open>fl\<close>, every \<^verbatim>\<open>PREV_FREE\<close> word points back, both ends are
  null, and no block is on it twice.
\<close>

definition free_list :: "state \<Rightarrow> nat list \<Rightarrow> bool" where
  "free_list s fl = (free_listp s = head_ptr fl \<and> links s 0 fl 0 \<and> distinct fl \<and> (\<forall>x \<in> set fl. okf x))"

lemma head_ptr_simps [simp]: "head_ptr [] = 0" "head_ptr (x # xs) = ptr x"
  by (simp_all add: head_ptr_def)

lemma head_ptr_eq_0: "\<forall>x \<in> set xs. okf x \<Longrightarrow> (head_ptr xs = 0) = (xs = [])"
  by (cases xs) (auto simp: okf_ptr)

lemma add_freeblock_list:
  assumes "free_list s fl" "okf q" "q \<notin> set fl"
  shows "free_list (add_freeblock s (ptr q)) (q # fl) \<and>
         same_except s (add_freeblock s (ptr q)) (lc (q # fl))"
proof -
  have ok: "\<forall>x \<in> set fl. okf x" and d: "distinct fl" and l: "links s 0 fl 0"
    and fp: "free_listp s = head_ptr fl"
    using assms(1) by (auto simp: free_list_def)
  have cq: "cell q" "cell (q + 4)" using okf_cells [OF assms(2)] by auto
  have cq': "q mod 4 = 0" "q + 4 \<le> 2 ^ 32" "(q + 4) mod 4 = 0" "q + 4 + 4 \<le> 2 ^ 32"
    using cq by (auto simp: cell_def)
  show ?thesis
  proof (cases fl)
    case Nil
    then have f0: "free_listp s = 0" using fp by simp
    let ?s1 = "s\<lparr>free_listp := ptr q\<rparr>"
    let ?s2 = "PUT ?s1 (ptr q) 0"
    let ?s3 = "PUT ?s2 (ptr (q + 4)) 0"
    have e: "add_freeblock s (ptr q) = ?s3"
      using f0 by (simp add: add_freeblock_def WSIZE_def Let_def)
    have "GET ?s3 (ptr q) = 0" "GET ?s3 (ptr (q + 4)) = 0"
      using cq' by (simp_all add: GET_PUT_cell)
    then have A: "free_list (add_freeblock s (ptr q)) (q # fl)"
      unfolding e using Nil assms(2) by (simp add: free_list_def)
    have "same_except s ?s3 ({} \<union> {q} \<union> {q + 4})"
      by (rule same_except_trans [OF same_except_trans [OF same_except_free_listp
              same_except_PUT [OF cq(1)]] same_except_PUT [OF cq(2)]])
    then have "same_except s (add_freeblock s (ptr q)) (lc (q # fl))"
      unfolding e using Nil by (simp add: insert_commute)
    with A show ?thesis by simp
  next
    case (Cons x xs)
    then have fx: "free_listp s = ptr x" using fp by simp
    have okx: "okf x" using ok Cons by simp
    have fnz: "free_listp s \<noteq> 0" using fx okf_ptr [OF okx] by simp
    have cx: "cell x" using okf_cells [OF okx] by simp
    let ?s1 = "PUT s (ptr x) (ptr q)"
    let ?s2 = "PUT ?s1 (ptr q) 0"
    let ?s3 = "PUT ?s2 (ptr (q + 4)) (ptr x)"
    have e: "add_freeblock s (ptr q) = ?s3\<lparr>free_listp := ptr q\<rparr>"
      using fnz fx by (simp add: add_freeblock_def WSIZE_def Let_def)
    have se: "same_except ?s1 ?s3 ({q} \<union> {q + 4})"
      by (rule same_except_trans [OF same_except_PUT [OF cq(1)] same_except_PUT [OF cq(2)]])
    have "q \<notin> lc fl" "q + 4 \<notin> lc fl" using okf_not_lc [OF ok assms(2,3)] by auto
    then have dj: "({q} \<union> {q + 4}) \<inter> lc (x # xs) = {}" using Cons by auto
    have "links ?s1 q (x # xs) 0"
      using links_set_prev [of s 0 x xs 0 q] l ok d Cons by simp
    then have "links ?s3 q (x # xs) 0"
      using links_frame [OF se dj] ok Cons by simp
    moreover have "GET ?s3 (ptr q) = 0" "GET ?s3 (ptr (q + 4)) = ptr x"
      using cq' by (simp_all add: GET_PUT_cell)
    ultimately have A: "free_list (add_freeblock s (ptr q)) (q # fl)"
      unfolding e using Cons assms(2,3) ok d by (simp add: free_list_def)
    have "same_except s (?s3\<lparr>free_listp := ptr q\<rparr>) ({x} \<union> ({q} \<union> {q + 4}) \<union> {})"
      by (rule same_except_trans [OF same_except_trans [OF same_except_PUT [OF cx] se]
              same_except_free_listp])
    then have "same_except s (add_freeblock s (ptr q)) (lc (q # fl))"
      unfolding e using Cons by (auto elim: same_except_mono)
    with A show ?thesis by simp
  qed
qed

lemma case_list_head_ptr: "(case ys of [] \<Rightarrow> 0 | y # zs \<Rightarrow> ptr y) = head_ptr ys"
  by (simp add: head_ptr_def)

lemma remove_freeblock_list:
  assumes "free_list s fl" "y \<in> set fl"
  shows "free_list (remove_freeblock s (ptr y)) (remove1 y fl) \<and>
         same_except s (remove_freeblock s (ptr y)) (lc fl)"
proof -
  have ok: "\<forall>x \<in> set fl. okf x" and d: "distinct fl" and l: "links s 0 fl 0"
    and fp: "free_listp s = head_ptr fl"
    using assms(1) by (auto simp: free_list_def)
  obtain xs ys where fl: "fl = xs @ y # ys" using assms(2) by (meson split_list)
  have nin: "y \<notin> set xs" "y \<notin> set ys" using d fl by auto
  have rm: "remove1 y fl = xs @ ys" using fl nin by (simp add: remove1_append)
  have oky: "okf y" using ok assms(2) by simp
  have cy: "y mod 4 = 0" "y + 4 \<le> 2 ^ 32" "(y + 4) mod 4 = 0" "y + 4 + 4 \<le> 2 ^ 32"
    using okf_cells [OF oky] by (auto simp: cell_def)
  have lx: "links s 0 xs (ptr y)" and ly: "links s (last (0 # xs)) (y # ys) 0"
    using l unfolding fl links_append by simp_all
  have py: "GET s (ptr y) = ptr (last (0 # xs))" and ny: "GET s (ptr (y + 4)) = head_ptr ys"
    and lys: "links s y ys 0"
    using ly by (simp_all add: case_list_head_ptr)
  have okxs: "\<forall>x \<in> set xs. okf x" and okys: "\<forall>x \<in> set ys. okf x" using ok fl by auto
  have dxs: "distinct xs" and dys: "distinct ys" and dxy: "set xs \<inter> set ys = {}" using d fl by auto
  have PF: "PREV_FREE s (ptr y) = ptr (last (0 # xs))" by (simp add: PREV_FREE_def py)
  have NF: "NEXT_FREE s (ptr y) = head_ptr ys" by (simp add: NEXT_FREE_def WSIZE_def ny)
  have NF0: "(head_ptr ys = 0) = (ys = [])" using head_ptr_eq_0 [OF okys] .
  have PF0: "(ptr (last (0 # xs)) = 0) = (xs = [])"
  proof (cases xs rule: rev_cases)
    case Nil
    then show ?thesis by simp
  next
    case (snoc xs' l)
    then have "okf l" using okxs by simp
    then show ?thesis using snoc okf_ptr by simp
  qed
  show ?thesis
  proof (cases xs rule: rev_cases)
    case Nil
    note xs = Nil
    show ?thesis
    proof (cases ys)
      case Nil
      have e: "remove_freeblock s (ptr y) = s\<lparr>free_listp := 0\<rparr>"
        using PF NF xs Nil by (simp add: remove_freeblock_def)
      show ?thesis
        unfolding e rm using xs Nil
        by (simp add: free_list_def same_except_def)
    next
      case (Cons y2 ys')
      have oky2: "okf y2" using okys Cons by simp
      have cy2: "cell y2" using okf_cells [OF oky2] by simp
      let ?s1 = "s\<lparr>free_listp := ptr y2\<rparr>"
      have e: "remove_freeblock s (ptr y) = PUT ?s1 (ptr y2) 0"
        using PF NF xs Cons okf_ptr [OF oky2]
        by (simp add: remove_freeblock_def Let_def NEXT_FREE_def WSIZE_def ny)
      have "links (PUT s (ptr y2) (ptr 0)) 0 (y2 # ys') 0"
        using links_set_prev [of s y y2 ys' 0 0] lys okys dys Cons by simp
      then have A: "free_list (PUT ?s1 (ptr y2) 0) (xs @ ys)"
        using xs Cons okys dys by (simp add: free_list_def PUT_free_listp_update)
      have "same_except s (PUT ?s1 (ptr y2) 0) ({} \<union> {y2})"
        by (rule same_except_trans [OF same_except_free_listp same_except_PUT [OF cy2]])
      then have "same_except s (PUT ?s1 (ptr y2) 0) (lc fl)"
        unfolding fl Cons by (auto elim: same_except_mono)
      with A show ?thesis unfolding e rm by simp
    qed
  next
    case (snoc xs' l)
    note xs = snoc
    have okl: "okf l" using okxs xs by simp
    have cl: "cell (l + 4)" using okf_cells [OF okl] by simp
    have cl': "(l + 4) mod 4 = 0" "l + 4 + 4 \<le> 2 ^ 32" using cl by (auto simp: cell_def)
    have last: "last (0 # xs) = l" using xs by simp
    have ly_ne: "l \<noteq> y" using nin xs by auto
    have fpx: "free_listp s = head_ptr xs" using fp fl xs by (cases xs') (simp_all)
    show ?thesis
    proof (cases ys)
      case Nil
      let ?s1 = "PUT s (ptr (l + 4)) 0"
      have e: "remove_freeblock s (ptr y) = ?s1"
        using PF NF xs Nil okf_ptr [OF okl] last
        by (simp add: remove_freeblock_def Let_def WSIZE_def)
      have "links ?s1 0 (xs' @ [l]) 0"
        using links_set_end [of s 0 xs' l "ptr y" 0] lx okxs dxs xs by simp
      then have A: "free_list ?s1 (xs @ ys)"
        using xs Nil okxs dxs fpx by (simp add: free_list_def)
      have "same_except s ?s1 {l + 4}" by (rule same_except_PUT [OF cl])
      then have "same_except s ?s1 (lc fl)"
        unfolding fl xs by (auto elim: same_except_mono)
      with A show ?thesis unfolding e rm by simp
    next
      case (Cons y2 ys')
      have oky2: "okf y2" using okys Cons by simp
      have cy2: "cell y2" using okf_cells [OF oky2] by simp
      let ?s1 = "PUT s (ptr (l + 4)) (ptr y2)"
      let ?s2 = "PUT ?s1 (ptr y2) (ptr l)"
      have "l + 4 \<noteq> y + 4" "l + 4 \<noteq> y" using ly_ne okl oky unfolding okf_def by presburger+
      then have g: "GET ?s1 (ptr (y + 4)) = ptr y2" "GET ?s1 (ptr y) = ptr l"
        using cy cl' ny py last Cons by (simp_all add: GET_PUT_cell)
      have e: "remove_freeblock s (ptr y) = ?s2"
        using PF NF xs Cons okf_ptr [OF okl] okf_ptr [OF oky2] last g
        by (simp add: remove_freeblock_def Let_def WSIZE_def NEXT_FREE_def PREV_FREE_def)
      have se1: "same_except s ?s1 {l + 4}" by (rule same_except_PUT [OF cl])
      have se2: "same_except ?s1 ?s2 {y2}" by (rule same_except_PUT [OF cy2])
      have l1: "links ?s1 0 (xs' @ [l]) (ptr y2)"
        using links_set_end [of s 0 xs' l "ptr y" "ptr y2"] lx okxs dxs xs by simp
      have "y2 \<notin> set xs" using dxy Cons by auto
      then have "y2 \<notin> lc xs" using okf_not_lc(1) [OF okxs oky2] by simp
      then have l2: "links ?s2 0 xs (ptr y2)"
        using links_frame [OF se2, of xs] okxs l1 xs by simp
      have "l \<notin> set ys" using dxy xs by auto
      then have "l + 4 \<notin> lc ys" using okf_not_lc(2) [OF okys okl] by simp
      then have "links ?s1 y ys 0"
        using links_frame [OF se1, of ys] okys lys by simp
      then have l3: "links ?s2 l (y2 # ys') 0"
        using links_set_prev [of ?s1 y y2 ys' 0 l] okys dys Cons by simp
      have "links ?s2 0 (xs @ ys) 0"
        unfolding links_append using l2 l3 Cons last by simp
      moreover have "head_ptr (xs @ ys) = head_ptr xs" using xs by (cases xs') simp_all
      ultimately have A: "free_list ?s2 (xs @ ys)"
        using okxs okys dxs dys dxy fpx by (auto simp add: free_list_def)
      have "same_except s ?s2 ({l + 4} \<union> {y2})" by (rule same_except_trans [OF se1 se2])
      then have "same_except s ?s2 (lc fl)"
        unfolding fl xs Cons by (auto elim: same_except_mono)
      with A show ?thesis unfolding e rm by simp
    qed
  qed
qed

section \<open>Well-formed heaps\<close>

text \<open>
  \<open>shape s bs\<close>: the heap of \<open>s\<close> is the prologue, of 8 bytes and allocated, with
  \<^verbatim>\<open>heap_listp\<close> as its payload address, then the blocks \<open>bs\<close>, each of at least 16 bytes
  and a multiple of 8, then the epilogue header \<open>(0, allocated)\<close> in the last word
  before \<^verbatim>\<open>mem_brk\<close>. \<open>heap_inv s bs fl\<close> adds that no two neighbours are free and that the
  free list \<open>fl\<close> holds the free blocks of \<open>bs\<close> and nothing else.
\<close>

definition hp :: "state \<Rightarrow> nat" where
  "hp s = unat (heap_listp s)"

definition first_bp :: "state \<Rightarrow> nat" where
  "first_bp s = hp s + 8"

definition shape :: "state \<Rightarrow> block list \<Rightarrow> bool" where
  "shape s bs =
     (8 \<le> hp s \<and> hp s mod 8 = 0 \<and> first_bp s + extent bs < 2 ^ 32 \<and> sized 16 bs \<and>
      blocks s (hp s) ((8, True) # bs) \<and>
      GET s (ptr (first_bp s + extent bs - 4)) = hw 0 True \<and>
      mem_brk s = ptr (first_bp s + extent bs) \<and>
      first_bp s + extent bs \<le> unat (mem_max_addr s) \<and>
      epilogue s = ptr (hp s + 4))"

definition heap_inv :: "state \<Rightarrow> block list \<Rightarrow> nat list \<Rightarrow> bool" where
  "heap_inv s bs fl =
     (shape s bs \<and> no_free_pair bs \<and> free_list s fl \<and>
      set fl = set (free_starts (first_bp s) bs))"

lemma shapeD:
  assumes "shape s bs"
  shows "8 \<le> hp s" "hp s mod 8 = 0" "first_bp s + extent bs < 4294967296" "sized 16 bs"
    "blocks s (hp s) ((8, True) # bs)" "GET s (ptr (first_bp s + extent bs - 4)) = hw 0 True"
    "first_bp s = hp s + 8" "first_bp s mod 8 = 0" "extent bs mod 8 = 0" "hp s mod 4 = 0"
proof -
  show 1: "8 \<le> hp s" "hp s mod 8 = 0" "first_bp s + extent bs < 4294967296" "sized 16 bs"
    "blocks s (hp s) ((8, True) # bs)" "GET s (ptr (first_bp s + extent bs - 4)) = hw 0 True"
    using assms by (simp_all add: shape_def)
  show "first_bp s = hp s + 8" by (simp add: first_bp_def)
  show "first_bp s mod 8 = 0" using 1(2) unfolding first_bp_def by presburger
  show "extent bs mod 8 = 0" using 1(4) by (rule sized_extent_mod)
  show "hp s mod 4 = 0" using 1(2) by presburger
qed

lemma sized_mono: "sized 16 bs \<Longrightarrow> sized 8 bs"
  by (auto simp: sized_def)

lemma starts_bounds16:
  assumes "sized 16 bs" "x \<in> set (starts p bs)"
  shows "p \<le> x \<and> x + 16 \<le> p + extent bs"
  using assms by (induction bs arbitrary: p) fastforce+

lemma start_not_hf:
  assumes "sized 16 bs" "x \<in> set (starts p bs)" "4 \<le> p"
  shows "x \<notin> hf p bs \<and> x + 4 \<notin> hf p bs"
  using assms
proof (induction bs arbitrary: p)
  case Nil
  then show ?case by simp
next
  case (Cons b bs)
  have sz: "16 \<le> fst b" "sized 16 bs" using Cons.prems(1) by simp_all
  have lo: "\<And>w. w \<in> hf (p + fst b) bs \<Longrightarrow> p + fst b \<le> w + 4"
    using hf_bounds [OF sized_mono [OF sz(2)]] Cons.prems(3) by (meson trans_le_add1)
  show ?case
  proof (cases "x = p")
    case True
    have "p \<notin> hf (p + fst b) bs" "p + 4 \<notin> hf (p + fst b) bs" using lo sz(1) by fastforce+
    then show ?thesis using True sz(1) Cons.prems(3) by auto
  next
    case False
    then have x: "x \<in> set (starts (p + fst b) bs)" using Cons.prems(2) by simp
    then have "p + fst b \<le> x" using starts_bounds16 [OF sz(2)] by blast
    moreover have "x \<notin> hf (p + fst b) bs \<and> x + 4 \<notin> hf (p + fst b) bs"
      using Cons.IH [OF sz(2) x] Cons.prems(3) by simp
    ultimately show ?thesis using sz(1) by auto
  qed
qed

definition sc :: "state \<Rightarrow> block list \<Rightarrow> nat set" where
  "sc s bs = hf (hp s) ((8, True) # bs) \<union> {first_bp s + extent bs - 4}"

lemma shape_frame:
  assumes "same_except s s' C" "C \<inter> sc s bs = {}" "shape s bs"
  shows "shape s' bs"
proof -
  have h: "hp s' = hp s" "first_bp s' = first_bp s"
    using assms(1) by (simp_all add: hp_def first_bp_def same_except_def)
  have sz: "sized 8 ((8, True) # bs)" using assms(3) by (simp add: shape_def sized_mono)
  note D = shapeD [OF assms(3)]
  have b: "4 \<le> hp s" "hp s mod 4 = 0" "hp s + extent ((8, True) # bs) \<le> 2 ^ 32"
    using D by simp_all
  have "C \<inter> hf (hp s) ((8, True) # bs) = {}" using assms(2) by (auto simp: sc_def)
  then have 1: "blocks s' (hp s) ((8, True) # bs) = blocks s (hp s) ((8, True) # bs)"
    using blocks_frame [OF assms(1) _ sz b] by simp
  have "(first_bp s + extent bs - 4) mod 4 = 0"
    using D(1,7,8,9) by presburger
  moreover have "first_bp s + extent bs - 4 + 4 \<le> 2 ^ 32"
    using D by simp
  ultimately have "cell (first_bp s + extent bs - 4)" by (simp add: cell_def)
  moreover have "first_bp s + extent bs - 4 \<notin> C" using assms(2) by (auto simp: sc_def)
  ultimately have 2: "GET s' (ptr (first_bp s + extent bs - 4)) = GET s (ptr (first_bp s + extent bs - 4))"
    using assms(1) by (simp add: same_except_def)
  show ?thesis
    using assms(1,3) 1 2 unfolding shape_def h by (simp add: same_except_def)
qed

lemma shape_start_okf:
  assumes "shape s bs" "x \<in> set (starts (first_bp s) bs)"
  shows "okf x"
proof -
  have sz: "sized 16 bs" using assms(1) by (simp add: shape_def)
  note D = shapeD [OF assms(1)]
  have "x mod 8 = 0" using starts_mod [OF sized_mono [OF sz] assms(2)] D(8) by simp
  moreover have "first_bp s \<le> x \<and> x + 16 \<le> first_bp s + extent bs"
    using starts_bounds16 [OF sz assms(2)] .
  ultimately show ?thesis using D unfolding okf_def by simp
qed

lemma shape_start_not_sc:
  assumes "shape s bs" "x \<in> set (starts (first_bp s) bs)"
  shows "x \<notin> sc s bs \<and> x + 4 \<notin> sc s bs"
proof -
  have sz: "sized 16 bs" using assms(1) by (simp add: shape_def)
  have bd: "first_bp s \<le> x \<and> x + 16 \<le> first_bp s + extent bs"
    using starts_bounds16 [OF sz assms(2)] .
  have "x \<notin> hf (first_bp s) bs \<and> x + 4 \<notin> hf (first_bp s) bs"
    using start_not_hf [OF sz assms(2)] by (simp add: first_bp_def)
  then show ?thesis using bd unfolding sc_def first_bp_def by auto
qed

lemma lc_starts_disjoint:
  assumes "shape s bs" "set xs \<subseteq> set (starts (first_bp s) bs)"
  shows "lc xs \<inter> sc s bs = {}"
  using shape_start_not_sc [OF assms(1)] assms(2) by (auto simp: lc_def)

text \<open>
  \<open>managed s bs fl\<close> is the weaker state in the middle of an operation: the layout is
  intact and the free list is a well-formed list of blocks of the layout, but flags and
  list need not agree.
\<close>

definition managed :: "state \<Rightarrow> block list \<Rightarrow> nat list \<Rightarrow> bool" where
  "managed s bs fl =
     (shape s bs \<and> free_list s fl \<and> set fl \<subseteq> set (starts (first_bp s) bs))"

lemma same_except_first_bp: "same_except s s' C \<Longrightarrow> first_bp s' = first_bp s"
  by (simp add: same_except_def first_bp_def hp_def)

lemma managed_remove:
  assumes "managed s bs fl" "y \<in> set fl"
  shows "managed (remove_freeblock s (ptr y)) bs (remove1 y fl)"
proof -
  let ?s = "remove_freeblock s (ptr y)"
  have sh: "shape s bs" and f: "free_list s fl" and sub: "set fl \<subseteq> set (starts (first_bp s) bs)"
    using assms(1) by (auto simp: managed_def)
  have r: "free_list ?s (remove1 y fl)" "same_except s ?s (lc fl)"
    using remove_freeblock_list [OF f assms(2)] by auto
  have "shape ?s bs"
    using shape_frame [OF r(2) lc_starts_disjoint [OF sh sub] sh] .
  moreover have "set (remove1 y fl) \<subseteq> set (starts (first_bp ?s) bs)"
    using sub set_remove1_subset [of y fl] same_except_first_bp [OF r(2)] by auto
  ultimately show ?thesis using r(1) by (simp add: managed_def)
qed

lemma managed_add:
  assumes "managed s bs fl" "q \<in> set (starts (first_bp s) bs)" "q \<notin> set fl"
  shows "managed (add_freeblock s (ptr q)) bs (q # fl)"
proof -
  let ?s = "add_freeblock s (ptr q)"
  have sh: "shape s bs" and f: "free_list s fl" and sub: "set fl \<subseteq> set (starts (first_bp s) bs)"
    using assms(1) by (auto simp: managed_def)
  have okq: "okf q" using shape_start_okf [OF sh assms(2)] .
  have r: "free_list ?s (q # fl)" "same_except s ?s (lc (q # fl))"
    using add_freeblock_list [OF f okq assms(3)] by auto
  have sub': "set (q # fl) \<subseteq> set (starts (first_bp s) bs)" using sub assms(2) by simp
  have "shape ?s bs"
    using shape_frame [OF r(2) lc_starts_disjoint [OF sh sub'] sh] .
  moreover have "set (q # fl) \<subseteq> set (starts (first_bp ?s) bs)"
    using sub' same_except_first_bp [OF r(2)] by simp
  ultimately show ?thesis using r(1) by (simp add: managed_def)
qed

text \<open>
  The words around a block of a well-formed heap: its header and footer, the header of the
  block after it (the epilogue when it is the last), the footer and header of the block
  before it (the prologue when it is the first).
\<close>

lemma shape_block:
  assumes "shape s (pre @ (z, a) # post)"
  defines "q \<equiv> first_bp s + extent pre"
  shows "GET s (ptr (q - 4)) = hw z a" "GET s (ptr (q + z - 8)) = hw z a"
    "GET s (ptr (q + z - 4)) = (case post of [] \<Rightarrow> hw 0 True | b # cs \<Rightarrow> hw (fst b) (snd b))"
    "GET s (ptr (q - 8)) = hw (fst (last ((8, True) # pre))) (snd (last ((8, True) # pre)))"
    "GET s (ptr (q - fst (last ((8, True) # pre)) - 4))
       = hw (fst (last ((8, True) # pre))) (snd (last ((8, True) # pre)))"
    "q mod 8 = 0" "first_bp s \<le> q" "q + z + extent post < 4294967296" "16 \<le> z" "z mod 8 = 0"
    "fst (last ((8, True) # pre)) \<le> q - 8" "8 \<le> fst (last ((8, True) # pre))"
    "fst (last ((8, True) # pre)) mod 8 = 0"
proof -
  note D = shapeD [OF assms(1)]
  have b: "blocks s (hp s) (((8, True) # pre) @ (z, a) # post)" using D(5) by simp
  have q: "q = hp s + extent ((8, True) # pre)" by (simp add: q_def D(7))
  have bq: "blocks s q ((z, a) # post)" and bl: "blocks s (hp s) ((8, True) # pre)"
    using b unfolding blocks_append q by simp_all
  show "GET s (ptr (q - 4)) = hw z a" "GET s (ptr (q + z - 8)) = hw z a"
    using bq by simp_all
  show "GET s (ptr (q + z - 4)) = (case post of [] \<Rightarrow> hw 0 True | b # cs \<Rightarrow> hw (fst b) (snd b))"
  proof (cases post)
    case Nil
    then show ?thesis using D(6) by (simp add: q_def add.assoc)
  next
    case (Cons b cs)
    then show ?thesis using bq by simp
  qed
  obtain L pb where L: "(8, True) # pre = L @ [pb]"
    by (metis append_butlast_last_id list.distinct(1))
  have lst: "last ((8, True) # pre) = pb" unfolding L by simp
  have q': "q = hp s + extent L + fst pb" unfolding q L by simp
  have bp: "blocks s (hp s + extent L) [pb]" using bl unfolding L blocks_append by simp
  have sz: "sized 8 ((8, True) # pre)" using D(4) by (simp add: sized_mono)
  then have szp: "8 \<le> fst pb" "fst pb mod 8 = 0" unfolding L by simp_all
  show "GET s (ptr (q - 8)) = hw (fst (last ((8, True) # pre))) (snd (last ((8, True) # pre)))"
    unfolding lst q' using bp by simp
  have "q - fst pb - 4 = hp s + extent L - 4" unfolding q' by simp
  then show "GET s (ptr (q - fst (last ((8, True) # pre)) - 4))
       = hw (fst (last ((8, True) # pre))) (snd (last ((8, True) # pre)))"
    unfolding lst using bp by simp
  have "extent pre mod 8 = 0" using D(4) sized_extent_mod [of 16 pre] by simp
  then show "q mod 8 = 0" using D(8) unfolding q_def by presburger
  show "first_bp s \<le> q" by (simp add: q_def)
  show "q + z + extent post < 4294967296" using D(3) by (simp add: q_def)
  show "16 \<le> z" "z mod 8 = 0" using D(4) by simp_all
  show "fst (last ((8, True) # pre)) \<le> q - 8" unfolding lst q' using D(1) by simp
  show "8 \<le> fst (last ((8, True) # pre))" "fst (last ((8, True) # pre)) mod 8 = 0"
    unfolding lst using szp by simp_all
qed

lemma free_list_frame:
  assumes "same_except s s' C" "C \<inter> lc fl = {}" "free_list s fl" "free_listp s' = free_listp s"
  shows "free_list s' fl"
  using assms links_frame [OF assms(1,2)] by (simp add: free_list_def)

lemma sized_extent_ge: "sized n bs \<Longrightarrow> bs \<noteq> [] \<Longrightarrow> n \<le> extent bs"
  by (cases bs) (auto simp: sized_def)

lemma managed_merge:
  assumes "managed s (pre @ mid @ post) fl" "mid \<noteq> []"
    "set fl \<subseteq> set (starts (first_bp s) (pre @ (extent mid, a) # post))"
  defines "q \<equiv> first_bp s + extent pre"
  shows "managed (PUT (PUT s (ptr (q - 4)) (hw (extent mid) a)) (ptr (q + extent mid - 8))
                    (hw (extent mid) a)) (pre @ (extent mid, a) # post) fl"
proof -
  let ?v = "hw (extent mid) a"
  let ?c1 = "q - 4" and ?c2 = "q + extent mid - 8"
  let ?s1 = "PUT s (ptr ?c1) ?v"
  let ?s' = "PUT ?s1 (ptr ?c2) ?v"
  let ?new = "pre @ (extent mid, a) # post"
  have sh: "shape s (pre @ mid @ post)" and f: "free_list s fl"
    using assms(1) by (auto simp: managed_def)
  note D = shapeD [OF sh]
  have szs: "sized 16 pre" "sized 16 mid" "sized 16 post" using D(4) by simp_all
  have tm: "16 \<le> extent mid" "extent mid mod 8 = 0"
    using sized_extent_ge [OF szs(2) assms(2)] sized_extent_mod [OF szs(2)] by simp_all
  have tp: "extent pre mod 8 = 0" "extent post mod 8 = 0"
    using sized_extent_mod szs by blast+
  have qm: "q mod 8 = 0" using D(8) tp(1) unfolding q_def by presburger
  have qlo: "16 \<le> q" using D(1,7) by (simp add: q_def)
  have qhi: "q + extent mid + extent post < 4294967296" using D(3) by (simp add: q_def add.assoc)
  have c1: "cell ?c1" unfolding cell_def using qm qlo qhi by (simp, presburger)
  have c2: "cell ?c2" unfolding cell_def using qm qlo qhi tm by (simp, presburger)
  have c12: "?c1 \<noteq> ?c2" using tm qlo by simp
  have se: "same_except s ?s' ({?c1} \<union> {?c2})"
    by (rule same_except_trans [OF same_except_PUT [OF c1] same_except_PUT [OF c2]])
  have h: "hp ?s' = hp s" "first_bp ?s' = first_bp s" by (simp_all add: hp_def first_bp_def)
  define L where "L = (8, True) # pre"
  have qq: "q = hp s + extent L" by (simp add: q_def D(7) L_def)
  have b: "blocks s (hp s) (L @ mid @ post)" using D(5) by (simp add: L_def)
  have bL: "blocks s (hp s) L" and bP: "blocks s (q + extent mid) post"
    using b unfolding blocks_append qq by (simp_all add: add.assoc)
  have szL: "sized 8 L" using szs(1) by (simp add: sized_mono L_def)
  have "\<And>w. w \<in> hf (hp s) L \<Longrightarrow> w + 8 \<le> q"
    using hf_bounds [OF szL] D(1) unfolding qq by simp
  then have "({?c1} \<union> {?c2}) \<inter> hf (hp s) L = {}"
    using tm qlo by fastforce
  then have bL': "blocks ?s' (hp s) L"
    using blocks_frame [OF se _ szL] bL D(1,10) qhi unfolding qq by simp
  have "\<And>w. w \<in> hf (q + extent mid) post \<Longrightarrow> q + extent mid \<le> w + 4"
    using hf_bounds [OF sized_mono [OF szs(3)]] qlo by simp
  then have "({?c1} \<union> {?c2}) \<inter> hf (q + extent mid) post = {}"
    using tm qlo by fastforce
  moreover have "(q + extent mid) mod 4 = 0" using qm tm(2) by presburger
  ultimately have bP': "blocks ?s' (q + extent mid) post"
    using blocks_frame [OF se _ sized_mono [OF szs(3)]] bP qlo qhi by simp
  have g1: "GET ?s' (ptr ?c1) = ?v" "GET ?s' (ptr ?c2) = ?v"
    using c1 c2 c12 by (simp_all add: GET_PUT_cell cell_def)
  have bnew: "blocks ?s' (hp s) ((8, True) # ?new)"
  proof -
    have "blocks ?s' (hp s) (L @ (extent mid, a) # post)"
      unfolding blocks_append blocks.simps fst_conv snd_conv qq [symmetric]
      using bL' bP' g1 by blast
    then show ?thesis by (simp add: L_def)
  qed
  have tot: "extent ?new = extent (pre @ mid @ post)" by simp
  let ?e = "first_bp s + extent (pre @ mid @ post) - 4"
  have e: "?e = q + extent mid + extent post - 4" by (simp add: q_def add.assoc)
  have "cell ?e" unfolding cell_def e using qm tm tp qlo qhi by (simp, presburger)
  moreover have "?e \<notin> {?c1} \<union> {?c2}" unfolding e using tm qlo by (simp, arith)
  ultimately have ge: "GET ?s' (ptr ?e) = GET s (ptr ?e)"
    using se unfolding same_except_def by blast
  have sh': "shape ?s' ?new"
    unfolding shape_def h tot
    using D(1,2,3) szs tm bnew ge D(6) sh by (simp add: shape_def)
  have "lc fl \<inter> sc ?s' ?new = {}"
    using lc_starts_disjoint [OF sh'] assms(3) by (simp add: h)
  moreover have "?c1 \<in> sc ?s' ?new" "?c2 \<in> sc ?s' ?new"
  proof -
    have "hf (hp s) (L @ (extent mid, a) # post)
            = hf (hp s) L \<union> hf q ((extent mid, a) # post)"
      unfolding hf_append qq ..
    moreover have "(8, True) # ?new = L @ (extent mid, a) # post" by (simp add: L_def)
    ultimately show "?c1 \<in> sc ?s' ?new" "?c2 \<in> sc ?s' ?new"
      unfolding sc_def h by auto
  qed
  ultimately have "({?c1} \<union> {?c2}) \<inter> lc fl = {}" by auto
  then have "free_list ?s' fl"
    using free_list_frame [OF se _ f] by simp
  then show ?thesis using sh' assms(3) by (simp add: managed_def h)
qed

section \<open>Coalescing\<close>

text \<open>
  \<open>freed s pre z post fl\<close> is the state in which \<^verbatim>\<open>mm_free\<close> and \<^verbatim>\<open>extend_heap\<close> call
  \<^verbatim>\<open>coalesce\<close>: the block of \<open>z\<close> bytes between the blocks \<open>pre\<close> and \<open>post\<close> has header
  and footer marked free but is not on the free list, and the heap is well formed when
  that block is taken as allocated.
\<close>

definition freed :: "state \<Rightarrow> block list \<Rightarrow> nat \<Rightarrow> block list \<Rightarrow> nat list \<Rightarrow> bool" where
  "freed s pre z post fl =
     (shape s (pre @ (z, False) # post) \<and> free_list s fl \<and>
      no_free_pair (pre @ (z, True) # post) \<and>
      set fl = set (free_starts (first_bp s) (pre @ (z, True) # post)))"

lemma hw_False: "hw z False = PACK (ptr z) 0"
  by (simp add: hw_def ptr_def)

lemma hw_True: "hw z True = PACK (ptr z) 1"
  by (simp add: hw_def ptr_def)

lemma GET_SIZE_hw_ptr: "GET s p = hw z a \<Longrightarrow> z mod 8 = 0 \<Longrightarrow> GET_SIZE s p = ptr z"
  by (simp add: GET_SIZE_hw ptr_def)

lemma starts_flag: "starts p (pre @ (z, a) # post) = starts p (pre @ (z, b) # post)"
  by (simp add: starts_append)

lemma free_starts_alloc:
  "free_starts p (pre @ (z, True) # post) = free_starts p pre @ free_starts (p + extent pre + z) post"
  by (simp add: free_starts_append)

lemma free_starts_free:
  "free_starts p (pre @ (z, False) # post)
     = free_starts p pre @ (p + extent pre) # free_starts (p + extent pre + z) post"
  by (simp add: free_starts_append)

lemma free_starts_lt:
  assumes "sized 8 bs" "x \<in> set (free_starts p bs)"
  shows "p \<le> x \<and> x + 8 \<le> p + extent bs"
  using starts_bounds [OF assms(1)] free_starts_subset assms(2) by blast

lemma no_free_pair_append:
  "no_free_pair (xs @ ys) =
     (no_free_pair xs \<and> no_free_pair ys \<and> (xs = [] \<or> ys = [] \<or> snd (last xs) \<or> snd (hd ys)))"
proof (induction xs)
  case Nil
  then show ?case by simp
next
  case (Cons x xs)
  then show ?case by (cases xs; cases ys) auto
qed

lemma freed_managed:
  assumes "freed s pre z post fl"
  shows "managed s (pre @ (z, False) # post) fl"
proof -
  have "set fl \<subseteq> set (starts (first_bp s) (pre @ (z, True) # post))"
    using assms free_starts_subset unfolding freed_def by blast
  then show ?thesis
    using assms starts_flag [of "first_bp s" pre z True post False]
    by (simp add: freed_def managed_def)
qed

text \<open>
  What the macros return at a block of a well-formed heap.
\<close>

lemma shape_reads:
  assumes "shape s (pre @ (z, a) # post)"
  defines "q \<equiv> first_bp s + extent pre"
  defines "zp \<equiv> fst (last ((8, True) # pre))"
  shows "HDRP (ptr q) = ptr (q - 4)"
    "ptr q - DSIZE = ptr (q - 8)"
    "GET_SIZE s (ptr (q - 4)) = ptr z"
    "GET_SIZE s (ptr (q - 8)) = ptr zp"
    "PREV_BLKP s (ptr q) = ptr (q - zp)"
    "NEXT_BLKP s (ptr q) = ptr (q + z)"
    "FTRP s (ptr q) = ptr (q + z - 8)"
    "HDRP (ptr (q - zp)) = ptr (q - zp - 4)"
    "HDRP (ptr (q + z)) = ptr (q + z - 4)"
    "GET_ALLOC s (ptr (q - zp - 4)) = (if snd (last ((8, True) # pre)) then 1 else 0)"
    "GET_ALLOC s (ptr (q + z - 4)) = (case post of [] \<Rightarrow> 1 | b # cs \<Rightarrow> if snd b then 1 else 0)"
proof -
  note B = shape_block [OF assms(1), folded q_def zp_def]
  note D = shapeD [OF assms(1)]
  have qlo: "16 \<le> q" using B(7) D(1,7) by simp
  show 1: "HDRP (ptr q) = ptr (q - 4)" using qlo by (simp add: HDRP_def WSIZE_def ptr_sub_numeral)
  show 2: "ptr q - DSIZE = ptr (q - 8)" using qlo by (simp add: DSIZE_def ptr_sub_numeral)
  show 3: "GET_SIZE s (ptr (q - 4)) = ptr z" using B(1,10) by (rule GET_SIZE_hw_ptr)
  show 4: "GET_SIZE s (ptr (q - 8)) = ptr zp" using B(4,13) by (rule GET_SIZE_hw_ptr)
  show 5: "PREV_BLKP s (ptr q) = ptr (q - zp)"
    using B(11) by (simp add: PREV_BLKP_def 2 4 ptr_sub)
  show 6: "NEXT_BLKP s (ptr q) = ptr (q + z)"
    using 1 3 by (simp add: NEXT_BLKP_def HDRP_def ptr_add)
  show "FTRP s (ptr q) = ptr (q + z - 8)"
    using 1 3 B(9) by (simp add: FTRP_def DSIZE_def ptr_add ptr_sub_numeral)
  show "HDRP (ptr (q - zp)) = ptr (q - zp - 4)"
    using B(11) qlo by (simp add: HDRP_def WSIZE_def ptr_sub_numeral)
  show "HDRP (ptr (q + z)) = ptr (q + z - 4)"
    using qlo by (simp add: HDRP_def WSIZE_def ptr_sub_numeral)
  show "GET_ALLOC s (ptr (q - zp - 4)) = (if snd (last ((8, True) # pre)) then 1 else 0)"
    using B(5,13) by (rule GET_ALLOC_hw)
  show "GET_ALLOC s (ptr (q + z - 4)) = (case post of [] \<Rightarrow> 1 | b # cs \<Rightarrow> if snd b then 1 else 0)"
  proof (cases post)
    case Nil
    then have "GET s (ptr (q + z - 4)) = hw 0 True" using B(3) by simp
    then show ?thesis using Nil GET_ALLOC_hw [of s _ 0 True] by simp
  next
    case (Cons b cs)
    then have "GET s (ptr (q + z - 4)) = hw (fst b) (snd b)" using B(3) by simp
    moreover have "fst b mod 8 = 0" using D(4) Cons by simp
    ultimately show ?thesis using Cons GET_ALLOC_hw by simp
  qed
qed

lemma no_free_pair_mid:
  "no_free_pair (pre @ (z, a) # post) =
     (no_free_pair pre \<and> no_free_pair post \<and> (pre = [] \<or> snd (last pre) \<or> a) \<and>
      (post = [] \<or> a \<or> snd (hd post)))"
  by (cases post) (auto simp: no_free_pair_append)

lemma no_free_pair_Cons:
  "no_free_pair (b # bs) = (no_free_pair bs \<and> (bs = [] \<or> snd b \<or> snd (hd bs)))"
  by (cases bs) auto

lemma start_mid: "p + extent pre \<in> set (starts p (pre @ b # post))"
  by (simp add: starts_append)

lemma freed_not_member:
  assumes "freed s pre z post fl"
  shows "first_bp s + extent pre \<notin> set fl"
proof -
  have sh: "shape s (pre @ (z, False) # post)" using assms by (simp add: freed_def)
  note D = shapeD [OF sh]
  have sz: "sized 8 pre" "sized 8 post" "16 \<le> z" using D(4) by (simp_all add: sized_mono)
  have fl: "set fl = set (free_starts (first_bp s) pre) \<union>
                     set (free_starts (first_bp s + extent pre + z) post)"
    using assms by (simp add: freed_def free_starts_alloc)
  show ?thesis
    unfolding fl using free_starts_lt [OF sz(1)] free_starts_lt [OF sz(2)] sz(3) by fastforce
qed

lemma last_prologue: "last ((8, True) # pre) = (if pre = [] then (8, True) else last pre)"
  by simp

lemma coalesce_case1:
  assumes F: "freed s pre z post fl"
    and pa: "pre = [] \<or> snd (last pre)" and na: "post = [] \<or> snd (hd post)"
  defines "q \<equiv> first_bp s + extent pre"
  shows "coalesce s (ptr q) = (add_freeblock s (ptr q), ptr q)"
    and "heap_inv (add_freeblock s (ptr q)) (pre @ (z, False) # post) (q # fl)"
proof -
  have sh: "shape s (pre @ (z, False) # post)" using F by (simp add: freed_def)
  define pb where "pb = last ((8, True) # pre)"
  note R = shape_reads [OF sh, folded q_def pb_def]
  have pa': "snd pb" using pa by (auto simp: pb_def)
  have na': "(case post of [] \<Rightarrow> (1 :: 32 word) | b # cs \<Rightarrow> if snd b then 1 else 0) = 1"
    using na by (cases post) auto
  show "coalesce s (ptr q) = (add_freeblock s (ptr q), ptr q)"
    by (simp only: coalesce_def Let_def R) (simp add: pa' na')
  have M: "managed s (pre @ (z, False) # post) fl" using F by (rule freed_managed)
  have qs: "q \<in> set (starts (first_bp s) (pre @ (z, False) # post))"
    unfolding q_def by (rule start_mid)
  have qn: "q \<notin> set fl" unfolding q_def using F by (rule freed_not_member)
  have M': "managed (add_freeblock s (ptr q)) (pre @ (z, False) # post) (q # fl)"
    using managed_add [OF M qs qn] .
  have fb: "first_bp (add_freeblock s (ptr q)) = first_bp s"
    by (simp add: add_freeblock_def first_bp_def hp_def Let_def)
  have "no_free_pair (pre @ (z, False) # post)"
    using F pa na by (simp add: freed_def no_free_pair_mid)
  moreover have "set (q # fl) = set (free_starts (first_bp s) (pre @ (z, False) # post))"
    using F by (auto simp add: freed_def free_starts_alloc free_starts_free q_def)
  ultimately show "heap_inv (add_freeblock s (ptr q)) (pre @ (z, False) # post) (q # fl)"
    using M' by (simp add: heap_inv_def managed_def fb)
qed

lemma first_bp_remove [simp]: "first_bp (remove_freeblock s x) = first_bp s"
  by (simp add: remove_freeblock_def first_bp_def hp_def Let_def)

lemma first_bp_add [simp]: "first_bp (add_freeblock s x) = first_bp s"
  by (simp add: add_freeblock_def first_bp_def hp_def Let_def)

lemma first_bp_PUT [simp]: "first_bp (PUT s x v) = first_bp s"
  by (simp add: first_bp_def hp_def)

lemma set_remove1_distinct: "distinct xs \<Longrightarrow> set (remove1 x xs) = set xs - {x}"
  by simp

lemma coalesce_case2:
  assumes F: "freed s pre z ((zn, False) # post') fl"
    and pa: "pre = [] \<or> snd (last pre)"
  defines "q \<equiv> first_bp s + extent pre"
  defines "s' \<equiv> add_freeblock
       (PUT (PUT (remove_freeblock s (ptr (q + z))) (ptr (q - 4)) (hw (z + zn) False))
          (ptr (q + (z + zn) - 8)) (hw (z + zn) False)) (ptr q)"
  shows "coalesce s (ptr q) = (s', ptr q)"
    and "heap_inv s' (pre @ (z + zn, False) # post') (q # remove1 (q + z) fl)"
proof -
  let ?post = "(zn, False) # post'"
  let ?bs0 = "pre @ (z, False) # ?post"
  let ?new = "pre @ (z + zn, False) # post'"
  let ?n = "q + z"
  let ?fl' = "remove1 ?n fl"
  let ?s1 = "remove_freeblock s (ptr ?n)"
  let ?v = "hw (z + zn) False"
  let ?s2 = "PUT ?s1 (ptr (q - 4)) ?v"
  let ?s3 = "PUT ?s2 (ptr (q + (z + zn) - 8)) ?v"
  have sh: "shape s ?bs0" using F by (simp add: freed_def)
  define pb where "pb = last ((8, True) # pre)"
  note R = shape_reads [OF sh, folded q_def pb_def]
  note B = shape_block [OF sh, folded q_def pb_def]
  have sh2: "shape s ((pre @ [(z, False)]) @ (zn, False) # post')" using sh by simp
  have q2: "first_bp s + extent (pre @ [(z, False)]) = ?n" by (simp add: q_def)
  note R2 = shape_reads [OF sh2, unfolded q2]
  note B2 = shape_block [OF sh2, unfolded q2]
  have pa': "snd pb" using pa by (auto simp: pb_def)
  have hv: "PACK (ptr z + ptr zn) 0 = ?v" by (simp add: hw_False ptr_add)
  have qlo: "16 \<le> q" using B(7) shapeD(1,7) [OF sh] by simp
  have cq: "(q - 4) mod 4 = 0" "q - 4 + 4 \<le> 2 ^ 32"
    using B(6,8) qlo by (presburger, simp)
  have zz: "(z + zn) mod 8 = 0" using B(10) B2(10) by presburger
  have g: "GET ?s2 (ptr (q - 4)) = ?v"
    using cq by (simp add: GET_PUT_cell)
  have e1: "FTRP ?s2 (ptr q) = ptr (q + (z + zn) - 8)"
    using GET_SIZE_hw_ptr [OF g zz] B(9)
    by (simp add: FTRP_def R(1) DSIZE_def ptr_add ptr_sub_numeral)
  show "coalesce s (ptr q) = (s', ptr q)"
    apply (simp only: coalesce_def Let_def R R2(3) hv e1)
    apply (simp add: pa' s'_def)
    done
  have M: "managed s ?bs0 fl" using F by (rule freed_managed)
  note D = shapeD [OF sh]
  have sz: "sized 8 pre" "sized 8 post'" using D(4) by (simp_all add: sized_mono)
  have fl: "set fl = set (free_starts (first_bp s) pre) \<union> {?n} \<union>
                     set (free_starts (?n + zn) post')"
    using F by (auto simp add: freed_def free_starts_alloc q_def)
  have nin: "?n \<in> set fl" using fl by simp
  have dfl: "distinct fl" using F by (simp add: freed_def free_list_def)
  have out: "?n \<notin> set (free_starts (first_bp s) pre)" "?n \<notin> set (free_starts (?n + zn) post')"
    "q \<notin> set (free_starts (first_bp s) pre)" "q \<notin> set (free_starts (?n + zn) post')"
    using free_starts_lt [OF sz(1), of _ "first_bp s"] free_starts_lt [OF sz(2), of _ "?n + zn"]
      B(9) B2(9) unfolding q_def by fastforce+
  have fl': "set ?fl' = set (free_starts (first_bp s) pre) \<union> set (free_starts (?n + zn) post')"
    using fl out dfl by auto
  have M1: "managed ?s1 ?bs0 ?fl'" using managed_remove [OF M nin] .
  have M1': "managed ?s1 (pre @ [(z, False), (zn, False)] @ post') ?fl'" using M1 by simp
  have sub: "set ?fl' \<subseteq> set (starts (first_bp ?s1) (pre @ (extent [(z, False), (zn, False)], False) # post'))"
    using fl' free_starts_subset [of "first_bp s" pre] free_starts_subset [of "?n + zn" post']
    by (auto simp add: starts_append q_def add.assoc)
  have M3: "managed ?s3 ?new ?fl'"
    using managed_merge [OF M1' _ sub] by (simp add: q_def add.assoc)
  have qs: "q \<in> set (starts (first_bp ?s3) ?new)"
    unfolding q_def by (simp add: starts_append)
  have qn: "q \<notin> set ?fl'" using fl' out by simp
  have M4: "managed s' ?new (q # ?fl')"
    unfolding s'_def using managed_add [OF M3 qs qn] .
  have "no_free_pair (pre @ (z, True) # (zn, False) # post')"
    using F by (simp add: freed_def)
  then have nfp: "no_free_pair ?new"
    using pa by (auto simp add: no_free_pair_mid no_free_pair_Cons simp del: no_free_pair.simps)
  have "set (q # ?fl') = set (free_starts (first_bp s') ?new)"
    using fl' by (auto simp add: s'_def free_starts_free q_def add.assoc)
  then show "heap_inv s' ?new (q # ?fl')"
    using M4 nfp by (simp add: heap_inv_def managed_def)
qed

lemma coalesce_case3:
  assumes F: "freed s (pre' @ [(zp, False)]) z post fl"
    and na: "post = [] \<or> snd (hd post)"
  defines "p \<equiv> first_bp s + extent pre'"
  defines "s' \<equiv> add_freeblock
       (PUT (PUT (remove_freeblock s (ptr p)) (ptr (p - 4)) (hw (zp + z) False))
          (ptr (p + (zp + z) - 8)) (hw (zp + z) False)) (ptr p)"
  shows "coalesce s (ptr (p + zp)) = (s', ptr p)"
    and "heap_inv s' (pre' @ (zp + z, False) # post) (p # remove1 p fl)"
proof -
  let ?pre = "pre' @ [(zp, False)]"
  let ?bs0 = "?pre @ (z, False) # post"
  let ?new = "pre' @ (zp + z, False) # post"
  let ?q = "p + zp"
  let ?fl' = "remove1 p fl"
  let ?s1 = "remove_freeblock s (ptr p)"
  let ?v = "hw (zp + z) False"
  let ?s2 = "PUT ?s1 (ptr (p - 4)) ?v"
  let ?s3 = "PUT ?s2 (ptr (p + (zp + z) - 8)) ?v"
  have sh: "shape s ?bs0" using F by (simp add: freed_def)
  have q: "first_bp s + extent ?pre = ?q" by (simp add: p_def)
  have lst: "last ((8, True) # ?pre) = (zp, False)" by simp
  have qp: "?q - zp = p" "?q - zp - 4 = p - 4" by simp_all
  note R = shape_reads [OF sh, unfolded q lst fst_conv snd_conv qp if_False]
  note B = shape_block [OF sh, unfolded q lst fst_conv snd_conv qp]
  have sh1: "shape s (pre' @ (zp, False) # (z, False) # post)" using sh by simp
  note R1 = shape_reads [OF sh1, folded p_def]
  note B1 = shape_block [OF sh1, folded p_def]
  have na': "(case post of [] \<Rightarrow> (1 :: 32 word) | b # cs \<Rightarrow> if snd b then 1 else 0) = 1"
    using na by (cases post) auto
  have hv: "PACK (ptr z + ptr zp) 0 = ?v" by (simp add: hw_False ptr_add add.commute)
  have M: "managed s ?bs0 fl" using F by (rule freed_managed)
  note D = shapeD [OF sh]
  have sz: "sized 8 pre'" "sized 8 post" using D(4) by (simp_all add: sized_mono)
  have fl: "set fl = set (free_starts (first_bp s) pre') \<union> {p} \<union>
                     set (free_starts (?q + z) post)"
    using F by (auto simp add: freed_def free_starts_alloc free_starts_append p_def)
  have pin: "p \<in> set fl" using fl by simp
  have dfl: "distinct fl" using F by (simp add: freed_def free_list_def)
  have M1: "managed ?s1 ?bs0 ?fl'" using managed_remove [OF M pin] .
  then have sh1': "shape ?s1 ?bs0" by (simp add: managed_def)
  have q': "first_bp ?s1 + extent ?pre = ?q" by (simp add: p_def)
  note Rs = shape_reads [OF sh1', unfolded q' lst fst_conv snd_conv qp if_False]
  note Bs = shape_block [OF sh1', unfolded q' lst fst_conv snd_conv qp]
  have plo: "16 \<le> p" using B1(7) D(1,7) by simp
  have zlo: "16 \<le> zp" "16 \<le> z" "zp mod 8 = 0" "z mod 8 = 0" using B1(9,10) B(9,10) by simp_all
  have pm: "p mod 8 = 0" using B1(6) .
  have hi: "p + zp + z < 4294967296" using B(8) by simp
  have c1: "(p - 4) mod 4 = 0" "p - 4 + 4 \<le> 2 ^ 32"
    using pm plo hi by (presburger, simp)
  have c2: "(?q - 4) mod 4 = 0" "?q - 4 + 4 \<le> 2 ^ 32"
    using pm plo hi zlo by (presburger, simp)
  have c3: "(p + (zp + z) - 8) mod 4 = 0" "p + (zp + z) - 8 + 4 \<le> 2 ^ 32"
    using pm plo hi zlo by (presburger, simp)
  have c4: "(?q - 8) mod 4 = 0" "?q - 8 + 4 \<le> 2 ^ 32"
    using pm plo hi zlo by (presburger, simp)
  have ne: "?q - 4 \<noteq> p - 4" "?q - 8 \<noteq> p - 4" "?q - 8 \<noteq> p + (zp + z) - 8"
    using zlo plo by arith+
  have g2: "GET ?s2 (ptr (?q - 4)) = hw z False"
    using c1 c2 ne Bs(1) by (simp add: GET_PUT_cell)
  have e1: "FTRP ?s2 (ptr ?q) = ptr (p + (zp + z) - 8)"
    using GET_SIZE_hw_ptr [OF g2 zlo(4)] zlo plo
    by (simp add: FTRP_def R(1) DSIZE_def ptr_add ptr_sub_numeral add.assoc)
  have g3: "GET ?s3 (ptr (?q - 8)) = hw zp False"
    using c1 c3 c4 ne Bs(4) by (simp add: GET_PUT_cell)
  have e2: "PREV_BLKP ?s3 (ptr ?q) = ptr p"
    using GET_SIZE_hw_ptr [OF g3 zlo(3)]
    by (simp add: PREV_BLKP_def R(2) ptr_sub)
  show "coalesce s (ptr ?q) = (s', ptr p)"
    apply (simp only: coalesce_def Let_def R R1(1,3) Rs(5) hv e1 e2)
    apply (simp add: na' s'_def)
    done
  have out: "p \<notin> set (free_starts (first_bp s) pre')" "p \<notin> set (free_starts (?q + z) post)"
    using free_starts_lt [OF sz(1), of _ "first_bp s"] free_starts_lt [OF sz(2), of _ "?q + z"]
      zlo unfolding p_def by fastforce+
  have fl': "set ?fl' = set (free_starts (first_bp s) pre') \<union> set (free_starts (?q + z) post)"
    using fl out dfl by auto
  have M1': "managed ?s1 (pre' @ [(zp, False), (z, False)] @ post) ?fl'" using M1 by simp
  have sub: "set ?fl' \<subseteq> set (starts (first_bp ?s1) (pre' @ (extent [(zp, False), (z, False)], False) # post))"
    using fl' free_starts_subset [of "first_bp s" pre'] free_starts_subset [of "?q + z" post]
    by (auto simp add: starts_append p_def add.assoc)
  have M3: "managed ?s3 ?new ?fl'"
    using managed_merge [OF M1' _ sub] by (simp add: p_def add.assoc)
  have ps: "p \<in> set (starts (first_bp ?s3) ?new)"
    unfolding p_def by (simp add: starts_append)
  have pn: "p \<notin> set ?fl'" using fl' out by simp
  have M4: "managed s' ?new (p # ?fl')"
    unfolding s'_def using managed_add [OF M3 ps pn] .
  have "no_free_pair (pre' @ (zp, False) # (z, True) # post)"
    using F by (simp add: freed_def)
  then have nfp: "no_free_pair ?new"
    using na by (auto simp add: no_free_pair_mid no_free_pair_Cons simp del: no_free_pair.simps)
  have "set (p # ?fl') = set (free_starts (first_bp s') ?new)"
    using fl' by (auto simp add: s'_def free_starts_free p_def add.assoc)
  then show "heap_inv s' ?new (p # ?fl')"
    using M4 nfp by (simp add: heap_inv_def managed_def)
qed

lemma coalesce_case4:
  assumes F: "freed s (pre' @ [(zp, False)]) z ((zn, False) # post') fl"
  defines "p \<equiv> first_bp s + extent pre'"
  defines "s' \<equiv> add_freeblock
       (PUT (PUT (remove_freeblock (remove_freeblock s (ptr p)) (ptr (p + zp + z)))
               (ptr (p - 4)) (hw (zp + z + zn) False))
          (ptr (p + (zp + z + zn) - 8)) (hw (zp + z + zn) False)) (ptr p)"
  shows "coalesce s (ptr (p + zp)) = (s', ptr p)"
    and "heap_inv s' (pre' @ (zp + z + zn, False) # post')
           (p # remove1 (p + zp + z) (remove1 p fl))"
proof -
  let ?pre = "pre' @ [(zp, False)]"
  let ?post = "(zn, False) # post'"
  let ?bs0 = "?pre @ (z, False) # ?post"
  let ?new = "pre' @ (zp + z + zn, False) # post'"
  let ?q = "p + zp"
  let ?n = "p + zp + z"
  let ?fl1 = "remove1 p fl"
  let ?fl2 = "remove1 ?n ?fl1"
  let ?s1 = "remove_freeblock s (ptr p)"
  let ?s2 = "remove_freeblock ?s1 (ptr ?n)"
  let ?v = "hw (zp + z + zn) False"
  let ?s3 = "PUT ?s2 (ptr (p - 4)) ?v"
  let ?s4 = "PUT ?s3 (ptr (p + (zp + z + zn) - 8)) ?v"
  have sh: "shape s ?bs0" using F by (simp add: freed_def)
  have q: "first_bp s + extent ?pre = ?q" by (simp add: p_def)
  have lst: "last ((8, True) # ?pre) = (zp, False)" by simp
  have qp: "?q - zp = p" "?q - zp - 4 = p - 4" by simp_all
  note R = shape_reads [OF sh, unfolded q lst fst_conv snd_conv qp if_False list.case]
  note B = shape_block [OF sh, unfolded q lst fst_conv snd_conv qp list.case]
  have sh1: "shape s (pre' @ (zp, False) # (z, False) # ?post)" using sh by simp
  note R1 = shape_reads [OF sh1, folded p_def]
  note B1 = shape_block [OF sh1, folded p_def]
  have shn: "shape s ((?pre @ [(z, False)]) @ (zn, False) # post')" using sh by simp
  have qn: "first_bp s + extent (?pre @ [(z, False)]) = ?n" by (simp add: p_def)
  note Rn = shape_reads [OF shn, unfolded qn]
  note Bn = shape_block [OF shn, unfolded qn]
  have hv: "PACK (ptr z + (ptr zp + ptr zn)) 0 = ?v"
    by (simp add: hw_False ptr_add add.commute add.left_commute)
  have M: "managed s ?bs0 fl" using F by (rule freed_managed)
  note D = shapeD [OF sh]
  have sz: "sized 8 pre'" "sized 8 post'" using D(4) by (simp_all add: sized_mono)
  have fl: "set fl = set (free_starts (first_bp s) pre') \<union> {p} \<union> {?n} \<union>
                     set (free_starts (?n + zn) post')"
    using F by (auto simp add: freed_def free_starts_alloc free_starts_append p_def)
  have dfl: "distinct fl" using F by (simp add: freed_def free_list_def)
  have plo: "16 \<le> p" using B1(7) D(1,7) by simp
  have zlo: "16 \<le> zp" "16 \<le> z" "16 \<le> zn" "zp mod 8 = 0" "z mod 8 = 0" "zn mod 8 = 0"
    using B1(9,10) B(9,10) Bn(9,10) by simp_all
  have pm: "p mod 8 = 0" using B1(6) .
  have hi: "p + zp + z + zn < 4294967296" using Bn(8) by simp
  have pin: "p \<in> set fl" using fl by simp
  have M1: "managed ?s1 ?bs0 ?fl1" using managed_remove [OF M pin] .
  have nin: "?n \<in> set ?fl1" using fl dfl zlo by auto
  have M2: "managed ?s2 ?bs0 ?fl2" using managed_remove [OF M1 nin] .
  have sh1': "shape ?s1 ?bs0" using M1 by (simp add: managed_def)
  have sh2': "shape ?s2 ?bs0" using M2 by (simp add: managed_def)
  have q1: "first_bp ?s1 + extent ?pre = ?q" by (simp add: p_def)
  have q2: "first_bp ?s2 + extent ?pre = ?q" by (simp add: p_def)
  note Rs1 = shape_reads [OF sh1', unfolded q1 lst fst_conv snd_conv qp if_False list.case]
  note Rs2 = shape_reads [OF sh2', unfolded q2 lst fst_conv snd_conv qp if_False list.case]
  note Bs2 = shape_block [OF sh2', unfolded q2 lst fst_conv snd_conv qp list.case]
  have c1: "(p - 4) mod 4 = 0" "p - 4 + 4 \<le> 2 ^ 32"
    using pm plo hi by (presburger, simp)
  have c2: "(?q - 4) mod 4 = 0" "?q - 4 + 4 \<le> 2 ^ 32"
    using pm plo hi zlo by (presburger, simp)
  have c3: "(p + (zp + z + zn) - 8) mod 4 = 0" "p + (zp + z + zn) - 8 + 4 \<le> 2 ^ 32"
    using pm plo hi zlo by (presburger, simp)
  have c4: "(?q - 8) mod 4 = 0" "?q - 8 + 4 \<le> 2 ^ 32"
    using pm plo hi zlo by (presburger, simp)
  have c5: "(?q + z - 4) mod 4 = 0" "?q + z - 4 + 4 \<le> 2 ^ 32"
    using pm plo hi zlo by (presburger, simp)
  have ne: "?q - 4 \<noteq> p - 4" "?q - 8 \<noteq> p - 4" "?q - 8 \<noteq> p + (zp + z + zn) - 8"
    "?q + z - 4 \<noteq> p - 4"
    using zlo plo by arith+
  have g3: "GET ?s3 (ptr (?q - 4)) = hw z False"
    using c1 c2 ne Bs2(1) by (simp add: GET_PUT_cell)
  have e1: "NEXT_BLKP ?s3 (ptr ?q) = ptr (?q + z)"
    using GET_SIZE_hw_ptr [OF g3 zlo(5)]
    by (simp add: NEXT_BLKP_def R(1) [unfolded HDRP_def] ptr_add)
  have g3n: "GET ?s3 (ptr (?q + z - 4)) = hw zn False"
    using c1 c5 ne Bs2(3) by (simp add: GET_PUT_cell)
  have hn: "HDRP (ptr (?q + z)) = ptr (?q + z - 4)" using Rn(1) .
  have gs: "GET_SIZE ?s3 (ptr (?q + z - 4)) = ptr zn"
    using GET_SIZE_hw_ptr [OF g3n zlo(6)] .
  have e2: "FTRP ?s3 (ptr (?q + z)) = ptr (p + (zp + z + zn) - 8)"
    unfolding FTRP_def hn gs DSIZE_def using zlo plo
    by (simp add: ptr_add ptr_sub_numeral add.assoc)
  have g4: "GET ?s4 (ptr (?q - 8)) = hw zp False"
    using c1 c3 c4 ne Bs2(4) by (simp add: GET_PUT_cell)
  have e3: "PREV_BLKP ?s4 (ptr ?q) = ptr p"
    using GET_SIZE_hw_ptr [OF g4 zlo(4)]
    by (simp add: PREV_BLKP_def R(2) ptr_sub)
  have gf: "GET_SIZE s (ptr (?q + z + zn - 8)) = ptr zn"
    using GET_SIZE_hw_ptr [OF Bn(2) zlo(6)] .
  show "coalesce s (ptr ?q) = (s', ptr p)"
    apply (simp only: coalesce_def Let_def R R1(1,3) Rn(7) gf Rs1(6) Rs2(5) hv e1 e2 e3)
    apply (simp add: s'_def)
    done
  have out: "p \<notin> set (free_starts (first_bp s) pre')" "p \<notin> set (free_starts (?n + zn) post')"
    "?n \<notin> set (free_starts (first_bp s) pre')" "?n \<notin> set (free_starts (?n + zn) post')"
    using free_starts_lt [OF sz(1), of _ "first_bp s"] free_starts_lt [OF sz(2), of _ "?n + zn"]
      zlo unfolding p_def by fastforce+
  have fl2: "set ?fl2 = set (free_starts (first_bp s) pre') \<union> set (free_starts (?n + zn) post')"
    using fl out dfl zlo by auto
  have M2': "managed ?s2 (pre' @ [(zp, False), (z, False), (zn, False)] @ post') ?fl2"
    using M2 by simp
  have sub: "set ?fl2 \<subseteq> set (starts (first_bp ?s2)
                 (pre' @ (extent [(zp, False), (z, False), (zn, False)], False) # post'))"
    using fl2 free_starts_subset [of "first_bp s" pre'] free_starts_subset [of "?n + zn" post']
    by (auto simp add: starts_append p_def add.assoc)
  have M4: "managed ?s4 ?new ?fl2"
    using managed_merge [OF M2' _ sub] by (simp add: p_def add.assoc)
  have ps: "p \<in> set (starts (first_bp ?s4) ?new)"
    unfolding p_def by (simp add: starts_append)
  have pn: "p \<notin> set ?fl2" using fl2 out by simp
  have M5: "managed s' ?new (p # ?fl2)"
    unfolding s'_def using managed_add [OF M4 ps pn] .
  have "no_free_pair (pre' @ (zp, False) # (z, True) # (zn, False) # post')"
    using F by (simp add: freed_def)
  then have nfp: "no_free_pair ?new"
    by (auto simp add: no_free_pair_mid no_free_pair_Cons simp del: no_free_pair.simps)
  have "set (p # ?fl2) = set (free_starts (first_bp s') ?new)"
    using fl2 by (auto simp add: s'_def free_starts_free p_def add.assoc)
  then show "heap_inv s' ?new (p # ?fl2)"
    using M5 nfp by (simp add: heap_inv_def managed_def)
qed

text \<open>
  The neighbours of the block between \<open>pre\<close> and \<open>post\<close>: the last block of \<open>pre\<close>, or the
  prologue, and the first block of \<open>post\<close>, or the epilogue.
\<close>

definition block_before :: "block list \<Rightarrow> block" where
  "block_before pre = last ((8, True) # pre)"

definition block_after :: "block list \<Rightarrow> block" where
  "block_after post = (case post of [] \<Rightarrow> (0, True) | b # cs \<Rightarrow> b)"

lemma heap_inv_words:
  assumes "heap_inv s (pre @ (z, a) # post) fl"
  shows "GET s (ptr (first_bp s + extent pre - 4)) = hw z a"
    and "GET s (ptr (first_bp s + extent pre + z - 8)) = hw z a"
  using shape_block(1,2) [of s pre z a post] assms by (simp_all add: heap_inv_def)

lemma coalesce_reads:
  assumes "freed s pre z post fl"
  shows "PREV_BLKP s (ptr (first_bp s + extent pre))
           = ptr (first_bp s + extent pre - fst (block_before pre))"
    and "NEXT_BLKP s (ptr (first_bp s + extent pre)) = ptr (first_bp s + extent pre + z)"
    and "(GET_ALLOC s (HDRP (PREV_BLKP s (ptr (first_bp s + extent pre)))) \<noteq> 0)
           = snd (block_before pre)"
    and "(GET_ALLOC s (HDRP (NEXT_BLKP s (ptr (first_bp s + extent pre)))) \<noteq> 0)
           = snd (block_after post)"
proof -
  have sh: "shape s (pre @ (z, False) # post)" using assms by (simp add: freed_def)
  note R = shape_reads [OF sh, folded block_before_def]
  show "PREV_BLKP s (ptr (first_bp s + extent pre))
           = ptr (first_bp s + extent pre - fst (block_before pre))"
    using R(5) .
  show "NEXT_BLKP s (ptr (first_bp s + extent pre)) = ptr (first_bp s + extent pre + z)"
    using R(6) .
  show "(GET_ALLOC s (HDRP (PREV_BLKP s (ptr (first_bp s + extent pre)))) \<noteq> 0)
           = snd (block_before pre)"
    by (simp only: R) simp
  show "(GET_ALLOC s (HDRP (NEXT_BLKP s (ptr (first_bp s + extent pre)))) \<noteq> 0)
           = snd (block_after post)"
    by (simp only: R) (simp add: block_after_def split: list.split)
qed

text \<open>
  Claim C4. Let \<open>bp\<close> be the payload pointer of a block of \<open>z\<close> bytes whose header and
  footer are marked free, in a heap that is well formed apart from that block, with
  \<open>(zp, pa)\<close> the size and allocated flag of the block before it and \<open>(zn, na)\<close> those of
  the block after it. \<^verbatim>\<open>PREV_BLKP\<close> and \<^verbatim>\<open>NEXT_BLKP\<close> find the two neighbours and
  \<^verbatim>\<open>coalesce\<close> reads their flags. If both are allocated, it pushes \<open>bp\<close> on the free
  list and returns \<open>bp\<close>. If only the next is free, it takes the next block off the free
  list, writes \<open>(z + zn, free)\<close> to the header of \<open>bp\<close> and to the footer of the next
  block, pushes \<open>bp\<close> and returns \<open>bp\<close>. If only the previous is free, it takes the
  previous block off the list, writes \<open>(zp + z, free)\<close> to the previous header and to the
  footer of \<open>bp\<close>, pushes the previous block and returns it. If both are free, it takes
  both off the list, writes \<open>(zp + z + zn, free)\<close> to the previous header and to the next
  footer, pushes the previous block and returns it. In every case the heap is well
  formed afterwards, with the merged block at the head of the free list.
\<close>

theorem coalesce_four_cases:
  assumes F: "freed s pre z post fl"
  shows "let q = first_bp s + extent pre; bp = ptr q;
             (zp, pa) = block_before pre; (zn, na) = block_after post;
             (s', r) = coalesce s bp
         in PREV_BLKP s bp = ptr (q - zp) \<and> NEXT_BLKP s bp = ptr (q + z) \<and>
            (GET_ALLOC s (HDRP (PREV_BLKP s bp)) \<noteq> 0) = pa \<and>
            (GET_ALLOC s (HDRP (NEXT_BLKP s bp)) \<noteq> 0) = na \<and>
            (pa \<and> na \<longrightarrow>
               s' = add_freeblock s bp \<and> r = bp \<and>
               heap_inv s' (pre @ (z, False) # post) (q # fl)) \<and>
            (pa \<and> \<not> na \<longrightarrow>
               r = bp \<and>
               GET s' (ptr (q - 4)) = hw (z + zn) False \<and>
               GET s' (ptr (q + z + zn - 8)) = hw (z + zn) False \<and>
               heap_inv s' (pre @ (z + zn, False) # tl post) (q # remove1 (q + z) fl)) \<and>
            (\<not> pa \<and> na \<longrightarrow>
               r = ptr (q - zp) \<and>
               GET s' (ptr (q - zp - 4)) = hw (zp + z) False \<and>
               GET s' (ptr (q + z - 8)) = hw (zp + z) False \<and>
               heap_inv s' (butlast pre @ (zp + z, False) # post)
                 ((q - zp) # remove1 (q - zp) fl)) \<and>
            (\<not> pa \<and> \<not> na \<longrightarrow>
               r = ptr (q - zp) \<and>
               GET s' (ptr (q - zp - 4)) = hw (zp + z + zn) False \<and>
               GET s' (ptr (q + z + zn - 8)) = hw (zp + z + zn) False \<and>
               heap_inv s' (butlast pre @ (zp + z + zn, False) # tl post)
                 ((q - zp) # remove1 (q + z) (remove1 (q - zp) fl)))"
proof -
  define q where "q = first_bp s + extent pre"
  obtain zp pa where pb: "block_before pre = (zp, pa)" by (cases "block_before pre")
  obtain zn na where nb: "block_after post = (zn, na)" by (cases "block_after post")
  obtain s' r where c: "coalesce s (ptr q) = (s', r)" by (cases "coalesce s (ptr q)")
  note R = coalesce_reads [OF F, folded q_def, unfolded pb nb fst_conv snd_conv]
  have e: "s' = fst (coalesce s (ptr q))" "r = snd (coalesce s (ptr q))" using c by simp_all
  have AA: "s' = add_freeblock s (ptr q) \<and> r = ptr q \<and>
            heap_inv s' (pre @ (z, False) # post) (q # fl)" if a: "pa" "na"
  proof -
    have 1: "pre = [] \<or> snd (last pre)"
      using pb a by (cases "pre = []") (simp_all add: block_before_def)
    have 2: "post = [] \<or> snd (hd post)"
      using nb a by (auto simp: block_after_def split: list.splits)
    show ?thesis
      using coalesce_case1 [OF F 1 2, folded q_def] c by simp
  qed
  have AF: "r = ptr q \<and> GET s' (ptr (q - 4)) = hw (z + zn) False \<and>
            GET s' (ptr (q + z + zn - 8)) = hw (z + zn) False \<and>
            heap_inv s' (pre @ (z + zn, False) # tl post) (q # remove1 (q + z) fl)"
    if a: "pa" "\<not> na"
  proof -
    have 1: "pre = [] \<or> snd (last pre)"
      using pb a by (cases "pre = []") (simp_all add: block_before_def)
    obtain post' where 2: "post = (zn, False) # post'"
      using nb a by (cases post) (auto simp: block_after_def)
    note C = coalesce_case2 [OF F [unfolded 2] 1, folded q_def]
    have r: "r = ptr q" unfolding e C(1) by simp
    have H: "heap_inv s' (pre @ (z + zn, False) # post') (q # remove1 (q + z) fl)"
      unfolding e C(1) fst_conv by (rule C(2))
    have fb: "first_bp s' = first_bp s" unfolding e C(1) by simp
    show ?thesis
      using r H heap_inv_words [OF H] by (simp add: 2 fb q_def add.assoc)
  qed
  have FA: "r = ptr (q - zp) \<and> GET s' (ptr (q - zp - 4)) = hw (zp + z) False \<and>
            GET s' (ptr (q + z - 8)) = hw (zp + z) False \<and>
            heap_inv s' (butlast pre @ (zp + z, False) # post)
              ((q - zp) # remove1 (q - zp) fl)"
    if a: "\<not> pa" "na"
  proof -
    have 2: "post = [] \<or> snd (hd post)"
      using nb a by (auto simp: block_after_def split: list.splits)
    have ne: "pre \<noteq> []" using pb a by (cases "pre = []") (simp_all add: block_before_def)
    then have "last pre = (zp, False)" using pb a by (simp add: block_before_def)
    then have 1: "pre = butlast pre @ [(zp, False)]"
      using ne append_butlast_last_id [of pre] by simp
    define p where "p = first_bp s + extent (butlast pre)"
    have qp: "q = p + zp" unfolding q_def p_def by (subst 1) simp
    note C = coalesce_case3 [of s "butlast pre" zp z post fl, folded 1, OF F 2, folded p_def]
    have r: "r = ptr p" unfolding e qp C(1) by simp
    have H: "heap_inv s' (butlast pre @ (zp + z, False) # post) (p # remove1 p fl)"
      unfolding e qp C(1) fst_conv by (rule C(2))
    have fb: "first_bp s' = first_bp s" unfolding e qp C(1) by simp
    show ?thesis
      using r H heap_inv_words [OF H] by (simp add: qp fb p_def add.assoc)
  qed
  have FF: "r = ptr (q - zp) \<and> GET s' (ptr (q - zp - 4)) = hw (zp + z + zn) False \<and>
            GET s' (ptr (q + z + zn - 8)) = hw (zp + z + zn) False \<and>
            heap_inv s' (butlast pre @ (zp + z + zn, False) # tl post)
              ((q - zp) # remove1 (q + z) (remove1 (q - zp) fl))"
    if a: "\<not> pa" "\<not> na"
  proof -
    obtain post' where 2: "post = (zn, False) # post'"
      using nb a by (cases post) (auto simp: block_after_def)
    have ne: "pre \<noteq> []" using pb a by (cases "pre = []") (simp_all add: block_before_def)
    then have "last pre = (zp, False)" using pb a by (simp add: block_before_def)
    then have 1: "pre = butlast pre @ [(zp, False)]"
      using ne append_butlast_last_id [of pre] by simp
    define p where "p = first_bp s + extent (butlast pre)"
    have qp: "q = p + zp" unfolding q_def p_def by (subst 1) simp
    note C = coalesce_case4 [of s "butlast pre" zp z zn post' fl, folded 1 2, OF F,
        folded p_def]
    have H: "heap_inv s' (butlast pre @ (zp + z + zn, False) # post')
               (p # remove1 (p + zp + z) (remove1 p fl))"
      unfolding e qp C(1) fst_conv by (rule C(2))
    have r: "r = ptr p" unfolding e qp C(1) by simp
    have fb: "first_bp s' = first_bp s" unfolding e qp C(1) by simp
    show ?thesis
      using r H heap_inv_words [OF H] by (simp add: qp fb p_def 2 add.assoc)
  qed
  show ?thesis
    unfolding Let_def q_def [symmetric] pb nb c prod.case
    using R AA AF FA FF by blast
qed

text \<open>
  A state of this kind with two free neighbours: \<^verbatim>\<open>mm_free\<close> marks header and footer of
  a block free before it calls \<^verbatim>\<open>coalesce\<close>, and after
  \<^verbatim>\<open>a = alloc(16); b = alloc(16); free(a)\<close> the block \<open>b\<close>, so marked, lies between the free
  block \<open>a\<close> and the free rest of the first chunk.
\<close>

definition marked_free :: "state \<Rightarrow> addr \<Rightarrow> state" where
  "marked_free s bp =
     (let sz = GET_SIZE s (HDRP bp);
          s1 = PUT s (HDRP bp) (PACK sz 0)
      in PUT s1 (FTRP s1 bp) (PACK sz 0))"

definition coalesce_example :: state where
  "coalesce_example =
     (case run (example_heap, []) [Alloc 16, Alloc 16, Free 0] of
        None \<Rightarrow> example_heap
      | Some c \<Rightarrow> marked_free (fst c) (snd c ! 1))"

lemma coalesce_example_state:
  "coalesce_example =
     \<lparr>mem = store32 (store32 (store32 (store32 (store32 (store32 (store32 (store32 (store32
        (store32 (store32 (store32 (store32 (store32 (store32 (store32 (store32 (store32
        (store32 (store32 (store32 (store32 (store32 (store32 (store32 (store32 (store32
          (\<lambda>_. 0) 0x10000 0) 0x10004 9) 0x10008 9) 0x1000C 4096) 0x11008 4096) 0x1100C 1)
          0x10010 0) 0x10014 0) 0x1000C 25) 0x10020 25) 0x10024 4072) 0x11008 4072)
          0x10028 0) 0x1002C 0) 0x10024 25) 0x10038 25) 0x1003C 4048) 0x11008 4048)
          0x10040 0) 0x10044 0) 0x1000C 24) 0x10020 24) 0x10040 0x10010) 0x10010 0)
          0x10014 0x10040) 0x10024 24) 0x10038 24,
      mem_brk = 0x11010, mem_max_addr = 0x1410000,
      heap_listp = 0x10008, free_listp = 0x10010, epilogue = 0x1000C\<rparr>"
proof -
  note ob = off_bounds [OF example_cap]
  show ?thesis
    unfolding coalesce_example_def example_heap_def example_arena_def
      mm_init_fresh [OF example_cap]
    apply (simp add: run_simps marked_free_def ob)
    apply (simp add: off_def)
    done
qed

lemma coalesce_example_freed:
  "freed coalesce_example [(24, False)] 24 [(4048, False)] [65552, 65600]"
  unfolding coalesce_example_state
  apply (simp add: freed_def shape_def hp_def first_bp_def extent_def sized_def free_list_def
     okf_def hw_def ptr_def GET_def PACK_def mem_simps)
  done

lemma coalesce_example_first_bp: "first_bp coalesce_example = 65552"
  unfolding coalesce_example_state by (simp add: first_bp_def hp_def)

theorem coalesce_four_cases_witness:
  "freed coalesce_example [(24, False)] 24 [(4048, False)] [65552, 65600] \<and>
   snd (coalesce coalesce_example (ptr 65576)) = ptr 65552 \<and>
   GET (fst (coalesce coalesce_example (ptr 65576))) (ptr 65548) = hw 4096 False \<and>
   GET (fst (coalesce coalesce_example (ptr 65576))) (ptr 69640) = hw 4096 False \<and>
   heap_inv (fst (coalesce coalesce_example (ptr 65576))) [(4096, False)] [65552]"
  using coalesce_four_cases [OF coalesce_example_freed] coalesce_example_freed
  by (simp add: coalesce_example_first_bp extent_def block_before_def block_after_def Let_def
        split_def)

end
